theory Spec2Isabelle
  imports Main "HOL-Library.Multiset"
begin

section \<open>Python strings\<close>

text \<open>
  The analysis engine of \<^verbatim>\<open>repo_review_om.py\<close> works on Python \<^verbatim>\<open>str\<close> values.
  A \<^typ>\<open>char\<close> stands for one code point below 256, so a \<^typ>\<open>string\<close> is a Python
  string all of whose code points are below 256; the character tables below (whitespace,
  lower case, digits) are Python's tables restricted to that range. The paths are handled
  by \<^verbatim>\<open>posixpath\<close> and \<^verbatim>\<open>fnmatch\<close> as on a POSIX system, where \<^verbatim>\<open>normcase\<close>
  is the identity.
\<close>

definition isspace :: "char \<Rightarrow> bool" where
  \<comment> \<open>\<^verbatim>\<open>str.isspace\<close> on one code point: the characters \<^verbatim>\<open>str.strip()\<close> removes.\<close>
  "isspace c = (of_char c \<in> {9::int, 10, 11, 12, 13, 28, 29, 30, 31, 32, 133, 160})"

definition py_strip :: "string \<Rightarrow> string" where
  "py_strip s = rev (dropWhile isspace (rev (dropWhile isspace s)))"

definition py_rstrip :: "string \<Rightarrow> string \<Rightarrow> string" where
  \<comment> \<open>\<^verbatim>\<open>s.rstrip(chars)\<close>: drops every trailing character that occurs in \<^verbatim>\<open>chars\<close>.\<close>
  "py_rstrip s chars = rev (dropWhile (\<lambda>c. c \<in> set chars) (rev s))"

definition lower_char :: "char \<Rightarrow> char" where
  "lower_char c =
     (let n = (of_char c :: int)
      in if (65 \<le> n \<and> n \<le> 90) \<or> (192 \<le> n \<and> n \<le> 222 \<and> n \<noteq> 215)
         then char_of (n + 32) else c)"

definition py_lower :: "string \<Rightarrow> string" where
  "py_lower s = map lower_char s"

fun py_split :: "char \<Rightarrow> string \<Rightarrow> string list" where
  \<comment> \<open>\<^verbatim>\<open>s.split(sep)\<close> for a one-character separator: never the empty list.\<close>
  "py_split sep [] = [[]]"
| "py_split sep (c # cs) =
     (if c = sep then [] # py_split sep cs
      else (case py_split sep cs of
              f # fs \<Rightarrow> (c # f) # fs
            | [] \<Rightarrow> [[c]]))"

fun startswith :: "string \<Rightarrow> string \<Rightarrow> bool" where
  "startswith s [] = True"
| "startswith [] (p # ps) = False"
| "startswith (c # cs) (p # ps) = (c = p \<and> startswith cs ps)"

fun contains :: "string \<Rightarrow> string \<Rightarrow> bool" where
  \<comment> \<open>\<^verbatim>\<open>sub in s\<close>\<close>
  "contains [] sub = (sub = [])"
| "contains (c # cs) sub = (startswith (c # cs) sub \<or> contains cs sub)"

definition endswith :: "string \<Rightarrow> string \<Rightarrow> bool" where
  "endswith s suffix = startswith (rev s) (rev suffix)"

subsection \<open>\<^verbatim>\<open>os.path\<close>\<close>

definition basename :: "string \<Rightarrow> string" where
  \<comment> \<open>\<^verbatim>\<open>posixpath.basename\<close>: what follows the last slash.\<close>
  "basename p = rev (takeWhile (\<lambda>c. c \<noteq> CHR ''/'') (rev p))"

definition rfind :: "string \<Rightarrow> char \<Rightarrow> int" where
  "rfind s c =
     (if c \<in> set s
      then int (length s) - 1 - int (length (takeWhile (\<lambda>x. x \<noteq> c) (rev s)))
      else - 1)"

definition splitext :: "string \<Rightarrow> string \<times> string" where
  \<comment> \<open>\<^verbatim>\<open>genericpath._splitext(p, '/', None, '.')\<close>: the extension starts at the last dot
      of the last component, unless only dots precede it there.\<close>
  "splitext p =
     (let sepIndex = rfind p CHR ''/'';
          dotIndex = rfind p CHR ''.''
      in if dotIndex > sepIndex
            \<and> list_ex (\<lambda>i. p ! i \<noteq> CHR ''.'') [nat (sepIndex + 1) ..< nat dotIndex]
         then (take (nat dotIndex) p, drop (nat dotIndex) p)
         else (p, []))"

subsection \<open>\<^verbatim>\<open>fnmatch\<close>\<close>

text \<open>
  \<^verbatim>\<open>fnmatch.fnmatch(name, pat)\<close> translates the pattern to a regular expression that must
  match the whole name: \<^verbatim>\<open>*\<close> is any run of characters (slashes and newlines
  included), \<^verbatim>\<open>?\<close> is any one character, every other character stands for itself.
  A bracket would open a character class; no pattern of this program contains one
  (lemma \<open>EXCLUDE_PATTERNS_plain\<close> below), so classes are not modelled.
\<close>

fun fnmatch :: "string \<Rightarrow> string \<Rightarrow> bool" where
  "fnmatch s [] = (s = [])"
| "fnmatch s (p # ps) =
     (if p = CHR ''*''
      then fnmatch s ps \<or> (case s of [] \<Rightarrow> False | _ # t \<Rightarrow> fnmatch t (p # ps))
      else (case s of
              [] \<Rightarrow> False
            | c # t \<Rightarrow> (p = CHR ''?'' \<or> p = c) \<and> fnmatch t ps))"

subsection \<open>\<^verbatim>\<open>int(str)\<close>\<close>

definition int_space :: "char \<Rightarrow> bool" where
  \<comment> \<open>the blanks \<^verbatim>\<open>int()\<close> skips around a number\<close>
  "int_space c = (of_char c \<in> {9::int, 10, 11, 12, 13, 32, 133, 160})"

definition is_digit :: "char \<Rightarrow> bool" where
  "is_digit c = (48 \<le> (of_char c :: int) \<and> (of_char c :: int) \<le> 57)"

definition digit_val :: "char \<Rightarrow> int" where
  "digit_val c = of_char c - 48"

fun int_digits :: "int \<Rightarrow> string \<Rightarrow> int option" where
  \<comment> \<open>the rest of a decimal literal after a digit: digits, single underscores between them\<close>
  "int_digits acc [] = Some acc"
| "int_digits acc [c] = (if is_digit c then Some (acc * 10 + digit_val c) else None)"
| "int_digits acc (c # d # cs) =
     (if is_digit c then int_digits (acc * 10 + digit_val c) (d # cs)
      else if c = CHR ''_'' \<and> is_digit d then int_digits (acc * 10 + digit_val d) cs
      else None)"

definition int_unsigned :: "string \<Rightarrow> int option" where
  "int_unsigned body =
     (case body of
        [] \<Rightarrow> None
      | c # cs \<Rightarrow> if is_digit c then int_digits (digit_val c) cs else None)"

definition py_int :: "string \<Rightarrow> int option" where
  \<comment> \<open>\<^verbatim>\<open>int(s)\<close>; \<open>None\<close> is \<^verbatim>\<open>ValueError\<close>. The interpreter's configurable limit on
      the number of digits is not modelled.\<close>
  "py_int s =
     (let t = rev (dropWhile int_space (rev (dropWhile int_space s)))
      in case t of
           [] \<Rightarrow> None
         | c # cs \<Rightarrow>
             if c = CHR ''-'' then map_option uminus (int_unsigned cs)
             else if c = CHR ''+'' then int_unsigned cs
             else int_unsigned t)"

subsection \<open>\<^verbatim>\<open>datetime\<close>\<close>

text \<open>
  A \<^verbatim>\<open>datetime\<close> produced by \<^verbatim>\<open>strptime(s, "%Y-%m-%d")\<close> is a calendar day at
  midnight; it is represented by its proleptic Gregorian ordinal
  (\<^verbatim>\<open>toordinal()\<close>: 1 is 0001-01-01), which determines it.
\<close>

type_synonym date = int

definition is_leap :: "int \<Rightarrow> bool" where
  "is_leap y = (y mod 4 = 0 \<and> (y mod 100 \<noteq> 0 \<or> y mod 400 = 0))"

definition days_in_month :: "int \<Rightarrow> int \<Rightarrow> int" where
  "days_in_month y m =
     (if m = 2 then (if is_leap y then 29 else 28)
      else if m \<in> {4, 6, 9, 11} then 30 else 31)"

definition days_before_year :: "int \<Rightarrow> int" where
  "days_before_year y = (y - 1) * 365 + (y - 1) div 4 - (y - 1) div 100 + (y - 1) div 400"

definition days_before_month :: "int \<Rightarrow> int \<Rightarrow> int" where
  "days_before_month y m = sum_list (map (days_in_month y) [1 .. m - 1])"

definition ymd2ord :: "int \<Rightarrow> int \<Rightarrow> int \<Rightarrow> date" where
  "ymd2ord y m d = days_before_year y + days_before_month y m + d"

definition make_date :: "int \<Rightarrow> int \<Rightarrow> int \<Rightarrow> date option" where
  \<comment> \<open>the \<^verbatim>\<open>datetime\<close> constructor; \<open>None\<close> is its \<^verbatim>\<open>ValueError\<close>\<close>
  "make_date y m d =
     (if 1 \<le> y \<and> y \<le> 9999 \<and> 1 \<le> m \<and> m \<le> 12 \<and> 1 \<le> d \<and> d \<le> days_in_month y m
      then Some (ymd2ord y m d) else None)"

definition match_Y :: "string \<Rightarrow> (int \<times> string) option" where
  \<comment> \<open>\<^verbatim>\<open>(?P<Y>\d\d\d\d)\<close>\<close>
  "match_Y s =
     (case s of
        a # b # c # d # r \<Rightarrow>
          if is_digit a \<and> is_digit b \<and> is_digit c \<and> is_digit d
          then Some (1000 * digit_val a + 100 * digit_val b + 10 * digit_val c + digit_val d, r)
          else None
      | _ \<Rightarrow> None)"

definition in_range :: "char \<Rightarrow> char \<Rightarrow> char \<Rightarrow> bool" where
  "in_range lo hi c = ((of_char lo :: int) \<le> of_char c \<and> (of_char c :: int) \<le> of_char hi)"

definition alt2 :: "(char \<Rightarrow> bool) \<Rightarrow> (char \<Rightarrow> bool) \<Rightarrow> string \<Rightarrow> (int \<times> string) list" where
  \<comment> \<open>one two-character alternative of a regular expression, read as a number\<close>
  "alt2 p q s =
     (case s of
        a # b # r \<Rightarrow>
          if p a \<and> q b
          then [((if is_digit a then 10 * digit_val a else 0) + digit_val b, r)] else []
      | _ \<Rightarrow> [])"

definition alt1 :: "(char \<Rightarrow> bool) \<Rightarrow> string \<Rightarrow> (int \<times> string) list" where
  "alt1 p s = (case s of a # r \<Rightarrow> if p a then [(digit_val a, r)] else [] | _ \<Rightarrow> [])"

definition match_m :: "string \<Rightarrow> (int \<times> string) list" where
  \<comment> \<open>\<^verbatim>\<open>(?P<m>1[0-2]|0[1-9]|[1-9])\<close>: the ways to match, in the order the matcher tries them\<close>
  "match_m s =
     alt2 (\<lambda>c. c = CHR ''1'') (in_range CHR ''0'' CHR ''2'') s
     @ alt2 (\<lambda>c. c = CHR ''0'') (in_range CHR ''1'' CHR ''9'') s
     @ alt1 (in_range CHR ''1'' CHR ''9'') s"

definition match_d :: "string \<Rightarrow> (int \<times> string) list" where
  \<comment> \<open>\<^verbatim>\<open>(?P<d>3[0-1]|[1-2]\d|0[1-9]|[1-9]| [1-9])\<close>\<close>
  "match_d s =
     alt2 (\<lambda>c. c = CHR ''3'') (in_range CHR ''0'' CHR ''1'') s
     @ alt2 (in_range CHR ''1'' CHR ''2'') is_digit s
     @ alt2 (\<lambda>c. c = CHR ''0'') (in_range CHR ''1'' CHR ''9'') s
     @ alt1 (in_range CHR ''1'' CHR ''9'') s
     @ alt2 (\<lambda>c. c = CHR '' '') (in_range CHR ''1'' CHR ''9'') s"

definition match_md :: "string \<Rightarrow> (int \<times> int \<times> string) list" where
  \<comment> \<open>\<^verbatim>\<open>%m-%d\<close>: every way to match a prefix, in the matcher's order\<close>
  "match_md s =
     concat (map (\<lambda>(m, r). case r of
                   c # r' \<Rightarrow> if c = CHR ''-'' then map (\<lambda>(d, r''). (m, d, r'')) (match_d r') else []
                 | [] \<Rightarrow> [])
             (match_m s))"

definition strptime :: "string \<Rightarrow> date option" where
  \<comment> \<open>\<^verbatim>\<open>datetime.strptime(s, "%Y-%m-%d")\<close>; \<open>None\<close> is \<^verbatim>\<open>ValueError\<close>: no match,
      unconverted data after the first match, or a day that does not exist.\<close>
  "strptime s =
     (case match_Y s of
        None \<Rightarrow> None
      | Some (y, r) \<Rightarrow>
          (case r of
             [] \<Rightarrow> None
           | c # r' \<Rightarrow>
               if c \<noteq> CHR ''-'' then None
               else (case match_md r' of
                       [] \<Rightarrow> None
                     | (m, d, rest) # _ \<Rightarrow> if rest = [] then make_date y m d else None)))"

definition weekday :: "date \<Rightarrow> int" where
  \<comment> \<open>\<^verbatim>\<open>datetime.weekday()\<close>: Monday is 0\<close>
  "weekday d = (d + 6) mod 7"

definition week_start :: "date \<Rightarrow> date" where
  \<comment> \<open>\<^verbatim>\<open>current_date - timedelta(days=current_date.weekday())\<close>\<close>
  "week_start d = d - weekday d"

section \<open>Configuration\<close>

definition DOC_EXTENSIONS :: "string list" where
  "DOC_EXTENSIONS = [''.md'', ''.mdx'', ''.rst'', ''.txt'']"

definition EXCLUDE_AUTHORS :: "string list" where
  "EXCLUDE_AUTHORS =
     [''gpt-engineer-app[bot]'', ''dependabot[bot]'', ''renovate[bot]'',
      ''github-actions[bot]'', ''cursor agent'', ''copilot'']"

definition EXCLUDE_PATTERNS :: "string list" where
  "EXCLUDE_PATTERNS =
     [''node_modules/*'', ''vendor/*'', ''venv/*'', ''.venv/*'',
      ''dist/*'', ''build/*'', ''coverage/*'', ''.next/*'', ''out/*'',
      ''package-lock.json'', ''pnpm-lock.yaml'', ''yarn.lock'',
      ''Cargo.lock'', ''Gemfile.lock'', ''poetry.lock'', ''*.lock'',
      ''*.generated.*'', ''*.d.ts'', ''types.ts'',
      ''logs/*'', ''*.log'', ''temp/*'', ''tmp/*'',
      ''*.min.js'', ''*.min.css'',
      ''*.jpg'', ''*.jpeg'', ''*.png'', ''*.gif'', ''*.svg'', ''*.ico'',
      ''*.woff'', ''*.woff2'', ''*.ttf'', ''*.eot'', ''*.mp4'', ''*.mp3'',
      ''*.wav'', ''*.pdf'', ''*.zip'', ''*.tar'', ''*.gz'',
      ''.cursor/*'', ''.vscode/*'', ''.idea/*'', ''*.tfstate'', ''*.tfstate.*'',
      ''.bmad/*'', ''bmad/*'', ''*.excalidraw'',
      ''*.map'', ''.git/*'', ''.DS_Store'', ''Thumbs.db'']"

definition FILE_CATEGORIES :: "(string \<times> string) list" where
  \<comment> \<open>the dictionary as the list of its items; no key is written twice
      (lemma \<open>FILE_CATEGORIES_distinct\<close>)\<close>
  "FILE_CATEGORIES =
     [(''.tsx'', ''frontend''), (''.jsx'', ''frontend''), (''.vue'', ''frontend''),
      (''.svelte'', ''frontend''), (''.css'', ''frontend''), (''.scss'', ''frontend''),
      (''.sass'', ''frontend''), (''.less'', ''frontend''), (''.html'', ''frontend''),
      (''.htm'', ''frontend''),
      (''.py'', ''backend''), (''.go'', ''backend''), (''.rs'', ''backend''),
      (''.java'', ''backend''), (''.rb'', ''backend''), (''.php'', ''backend''),
      (''.cs'', ''backend''), (''.cpp'', ''backend''), (''.c'', ''backend''),
      (''.h'', ''backend''),
      (''.ts'', ''fullstack''), (''.js'', ''fullstack''), (''.mjs'', ''fullstack''),
      (''.cjs'', ''fullstack''),
      (''.sql'', ''database''), (''.prisma'', ''database''), (''.graphql'', ''database''),
      (''.gql'', ''database''),
      (''.yml'', ''config''), (''.yaml'', ''config''), (''.toml'', ''config''),
      (''.ini'', ''config''), (''.json'', ''config''), (''.env'', ''config''),
      (''.conf'', ''config''),
      (''.tf'', ''infra''), (''.tfvars'', ''infra''), (''.hcl'', ''infra''),
      (''.dockerfile'', ''infra''), (''.dockerignore'', ''infra''),
      (''.md'', ''docs''), (''.mdx'', ''docs''), (''.rst'', ''docs''), (''.txt'', ''docs''),
      (''.sh'', ''scripts''), (''.bash'', ''scripts''), (''.zsh'', ''scripts''),
      (''.fish'', ''scripts''), (''.ps1'', ''scripts''), (''.bat'', ''scripts''),
      (''.cmd'', ''scripts''),
      (''.test.ts'', ''testing''), (''.test.js'', ''testing''), (''.spec.ts'', ''testing''),
      (''.spec.js'', ''testing''), (''.test.tsx'', ''testing''), (''.test.jsx'', ''testing'')]"

section \<open>Classifier\<close>

definition get_file_category :: "string \<Rightarrow> string" where
  "get_file_category filepath =
     (let base = py_lower (basename filepath)
      in if contains base ''.test.'' \<or> contains base ''.spec.'' \<or> contains base ''_test.''
         then ''testing''
         else if base = ''dockerfile'' \<or> startswith base ''dockerfile.''
         then ''infra''
         else (case map_of FILE_CATEGORIES (snd (splitext (py_lower filepath))) of
                 Some category \<Rightarrow> category
               | None \<Rightarrow> ''other''))"

definition dir_pattern :: "string \<Rightarrow> string" where
  \<comment> \<open>\<^verbatim>\<open>pattern.rstrip("/*").rstrip("*")\<close>\<close>
  "dir_pattern pattern = py_rstrip (py_rstrip pattern ''/*'') ''*''"

definition pattern_excludes :: "string \<Rightarrow> string \<Rightarrow> bool" where
  \<comment> \<open>one round of the loop over \<^verbatim>\<open>EXCLUDE_PATTERNS\<close> in \<^verbatim>\<open>should_exclude_file\<close>\<close>
  "pattern_excludes filepath pattern =
     (fnmatch filepath pattern
      \<or> fnmatch filepath (''*/'' @ pattern)
      \<or> fnmatch (basename filepath) pattern
      \<or> (CHR ''/'' \<in> set pattern
          \<and> dir_pattern pattern \<noteq> []
          \<and> contains (py_lower filepath) (dir_pattern pattern)))"

definition should_exclude_file :: "bool \<Rightarrow> string \<Rightarrow> bool" where
  \<comment> \<open>the first argument is the module's global \<^verbatim>\<open>EXCLUDE_DOCS\<close>\<close>
  "should_exclude_file exclude_docs filepath =
     ((exclude_docs \<and> snd (splitext (py_lower filepath)) \<in> set DOC_EXTENSIONS)
      \<or> list_ex (pattern_excludes filepath) EXCLUDE_PATTERNS)"

definition should_exclude_author :: "string \<Rightarrow> bool" where
  "should_exclude_author author =
     list_ex (\<lambda>ex. contains (py_lower author) (py_lower ex)) EXCLUDE_AUTHORS"

section \<open>Log parser\<close>

text \<open>
  The dictionaries of \<^verbatim>\<open>parse_git_log\<close> are maps; a \<^verbatim>\<open>defaultdict\<close> read at a
  missing key yields the value of its factory. A commit hash is \<^verbatim>\<open>None\<close> or a string,
  as \<^verbatim>\<open>current_commit\<close> is.
\<close>

record bucket =
  bk_inserts :: int
  bk_deletes :: int

record week_bucket =
  wk_inserts :: int
  wk_deletes :: int
  wk_commits :: "string option set"

record author_stats =
  commits :: "string option set"
  inserts :: int
  deletes :: int
  weekly :: "date \<rightharpoonup> week_bucket"
  by_ext :: "string \<rightharpoonup> bucket"
  by_category :: "string \<rightharpoonup> bucket"

definition new_bucket :: bucket where
  "new_bucket = \<lparr>bk_inserts = 0, bk_deletes = 0\<rparr>"

definition new_week :: week_bucket where
  "new_week = \<lparr>wk_inserts = 0, wk_deletes = 0, wk_commits = {}\<rparr>"

definition new_author :: author_stats where
  "new_author =
     \<lparr>commits = {}, inserts = 0, deletes = 0,
      weekly = Map.empty, by_ext = Map.empty, by_category = Map.empty\<rparr>"

definition getdefault :: "('k \<rightharpoonup> 'v) \<Rightarrow> 'v \<Rightarrow> 'k \<Rightarrow> 'v" where
  "getdefault m d k = (case m k of None \<Rightarrow> d | Some v \<Rightarrow> v)"

definition add_bucket :: "('k \<rightharpoonup> bucket) \<Rightarrow> 'k \<Rightarrow> int \<Rightarrow> int \<Rightarrow> ('k \<rightharpoonup> bucket)" where
  "add_bucket m k ins dels =
     (let b = getdefault m new_bucket k
      in m(k \<mapsto> b\<lparr>bk_inserts := bk_inserts b + ins, bk_deletes := bk_deletes b + dels\<rparr>))"

definition add_week ::
  "(date \<rightharpoonup> week_bucket) \<Rightarrow> date \<Rightarrow> int \<Rightarrow> int \<Rightarrow> string option \<Rightarrow> (date \<rightharpoonup> week_bucket)" where
  "add_week m k ins dels c =
     (let b = getdefault m new_week k
      in m(k \<mapsto> b\<lparr>wk_inserts := wk_inserts b + ins, wk_deletes := wk_deletes b + dels,
                    wk_commits := insert c (wk_commits b)\<rparr>))"

text \<open>A numstat line that passed every check, with the commit it is attributed to.\<close>

record counted_line =
  cl_author :: string
  cl_commit :: "string option"
  cl_date :: "date option"
  cl_ins :: int
  cl_dels :: int
  cl_path :: string

definition fold_into :: "(string \<rightharpoonup> author_stats) \<Rightarrow> counted_line \<Rightarrow> (string \<rightharpoonup> author_stats)" where
  \<comment> \<open>the updates of \<^verbatim>\<open>stats[current_author]\<close> for one counted line\<close>
  "fold_into stats e =
     (let a0 = getdefault stats new_author (cl_author e);
          a1 = a0\<lparr>commits := insert (cl_commit e) (commits a0),
                  inserts := inserts a0 + cl_ins e,
                  deletes := deletes a0 + cl_dels e\<rparr>;
          ext = snd (splitext (py_lower (cl_path e)));
          a2 = (if ext \<noteq> []
                then a1\<lparr>by_ext := add_bucket (by_ext a1) ext (cl_ins e) (cl_dels e)\<rparr>
                else a1);
          category = get_file_category (cl_path e);
          a3 = a2\<lparr>by_category := add_bucket (by_category a2) category (cl_ins e) (cl_dels e)\<rparr>;
          a4 = (case cl_date e of
                  None \<Rightarrow> a3
                | Some d \<Rightarrow>
                    a3\<lparr>weekly := add_week (weekly a3) (week_start d) (cl_ins e) (cl_dels e)
                                   (cl_commit e)\<rparr>)
      in stats(cl_author e \<mapsto> a4))"

record cursor =
  current_author :: "string option"
  current_commit :: "string option"
  current_date :: "date option"

record parser_state =
  cur :: cursor
  stats :: "string \<rightharpoonup> author_stats"

definition commit_line :: "cursor \<Rightarrow> string \<Rightarrow> cursor" where
  \<comment> \<open>a line that starts with \<^verbatim>\<open>COMMIT|\<close>\<close>
  "commit_line c line =
     (let parts = py_split CHR ''|'' line
      in if length parts \<ge> 4
         then (let c1 = c\<lparr>current_commit := Some (parts ! 1)\<rparr>;
                   author_name = py_strip (parts ! 2)
               in if should_exclude_author author_name
                  then c1\<lparr>current_author := None\<rparr>
                  else c1\<lparr>current_author := Some author_name,
                          current_date := strptime (parts ! 3)\<rparr>)
         else c)"

definition numstat_line :: "bool \<Rightarrow> cursor \<Rightarrow> string \<Rightarrow> counted_line option" where
  \<comment> \<open>any other non-empty line: \<open>None\<close> when the line is skipped\<close>
  "numstat_line exclude_docs c line =
     (case py_split (CHR 0x09) line of
        [insertions, deletions, filepath] \<Rightarrow>
          (case current_author c of
             None \<Rightarrow> None
           | Some author \<Rightarrow>
               if author = [] then None
               else if insertions = ''-'' \<or> deletions = ''-'' then None
               else if should_exclude_file exclude_docs filepath then None
               else (case py_int insertions of
                       None \<Rightarrow> None
                     | Some ins \<Rightarrow>
                         (case py_int deletions of
                            None \<Rightarrow> None
                          | Some dels \<Rightarrow>
                              Some \<lparr>cl_author = author, cl_commit = current_commit c,
                                    cl_date = current_date c, cl_ins = ins, cl_dels = dels,
                                    cl_path = filepath\<rparr>)))
      | _ \<Rightarrow> None)"

definition process_line :: "bool \<Rightarrow> parser_state \<Rightarrow> string \<Rightarrow> parser_state" where
  \<comment> \<open>the body of the loop over the lines\<close>
  "process_line exclude_docs st line =
     (if line = [] then st
      else if startswith line ''COMMIT|'' then st\<lparr>cur := commit_line (cur st) line\<rparr>
      else (case numstat_line exclude_docs (cur st) line of
              None \<Rightarrow> st
            | Some e \<Rightarrow> st\<lparr>stats := fold_into (stats st) e\<rparr>))"

definition no_cursor :: cursor where
  "no_cursor = \<lparr>current_author = None, current_commit = None, current_date = None\<rparr>"

definition initial_state :: parser_state where
  "initial_state = \<lparr>cur = no_cursor, stats = Map.empty\<rparr>"

definition log_lines :: "string \<Rightarrow> string list" where
  \<comment> \<open>\<^verbatim>\<open>log_output.strip().split("\n")\<close>\<close>
  "log_lines log_output = py_split (CHR 0x0A) (py_strip log_output)"

definition parse_git_log :: "bool \<Rightarrow> string \<Rightarrow> (string \<rightharpoonup> author_stats)" where
  "parse_git_log exclude_docs log_output =
     stats (foldl (process_line exclude_docs) initial_state (log_lines log_output))"

text \<open>
  The lines that a scan counts, in order: the same walk as \<open>process_line\<close>, keeping the
  counted lines instead of folding them.
\<close>

fun counted_lines :: "bool \<Rightarrow> cursor \<Rightarrow> string list \<Rightarrow> counted_line list" where
  "counted_lines exclude_docs c [] = []"
| "counted_lines exclude_docs c (line # ls) =
     (if line = [] then counted_lines exclude_docs c ls
      else if startswith line ''COMMIT|''
      then counted_lines exclude_docs (commit_line c line) ls
      else (case numstat_line exclude_docs c line of
              None \<Rightarrow> counted_lines exclude_docs c ls
            | Some e \<Rightarrow> e # counted_lines exclude_docs c ls))"

section \<open>Reading the result\<close>

definition stat_of :: "(string \<rightharpoonup> author_stats) \<Rightarrow> string \<Rightarrow> author_stats" where
  \<comment> \<open>\<^verbatim>\<open>stats[author]\<close>: the entry, or a fresh one\<close>
  "stat_of m a = getdefault m new_author a"

section \<open>Sample logs\<close>

definition numstat :: "string \<Rightarrow> string \<Rightarrow> string \<Rightarrow> string" where
  "numstat insertions deletions path = insertions @ [CHR 0x09] @ deletions @ [CHR 0x09] @ path"

definition log_text :: "string list \<Rightarrow> string" where
  "log_text ls = concat (map (\<lambda>l. l @ [CHR 0x0A]) ls)"

definition scenario_B :: string where
  "scenario_B =
     log_text [''COMMIT|a1|dependabot[bot]|2025-01-06'', numstat ''5'' ''2'' ''src/app.ts'']"

definition alice_cursor :: cursor where
  "alice_cursor =
     \<lparr>current_author = Some ''Alice'', current_commit = Some ''a1'',
      current_date = Some 739257\<rparr>"

definition binary_line :: string where
  "binary_line = numstat ''-'' ''-'' ''assets/logo.bin''"

definition scenario_C :: string where
  "scenario_C =
     log_text [''COMMIT|a1|Alice|2025-01-06'', numstat ''40'' ''0'' ''package-lock.json'',
               numstat ''5'' ''2'' ''src/app.ts'',
               ''COMMIT|c7|Carol|2025-01-07'', binary_line]"

definition week_of :: "author_stats \<Rightarrow> date \<Rightarrow> week_bucket" where
  \<comment> \<open>\<^verbatim>\<open>stats[author]["weekly"][week]\<close>: the bucket, or a fresh one\<close>
  "week_of s w = getdefault (weekly s) new_week w"

definition ext_of :: "string \<Rightarrow> string" where
  \<comment> \<open>the extension under which \<open>fold_into\<close> files a path\<close>
  "ext_of path = snd (splitext (py_lower path))"

definition week_key :: "counted_line \<Rightarrow> date option" where
  \<comment> \<open>the weekly bucket a counted line goes to, if its commit has a date\<close>
  "week_key e = map_option week_start (cl_date e)"



definition app_line :: string where
  "app_line = numstat ''5'' ''2'' ''src/app.ts''"

definition app_counted :: counted_line where
  "app_counted =
     \<lparr>cl_author = ''Alice'', cl_commit = Some ''a1'', cl_date = Some 739257,
      cl_ins = 5, cl_dels = 2, cl_path = ''src/app.ts''\<rparr>"


definition scenario_D :: string where
  "scenario_D =
     log_text [''COMMIT|b1|Bob|2025-01-06'', numstat ''3'' ''0'' ''x.py'',
               ''COMMIT|b2|Bob|2025-01-13'', numstat ''7'' ''1'' ''y.py'']"

definition scenario_D_counted_lines :: "counted_line list" where
  "scenario_D_counted_lines =
     [\<lparr>cl_author = ''Bob'', cl_commit = Some ''b1'', cl_date = Some 739257,
       cl_ins = 3, cl_dels = 0, cl_path = ''x.py''\<rparr>,
      \<lparr>cl_author = ''Bob'', cl_commit = Some ''b2'', cl_date = Some 739264,
       cl_ins = 7, cl_dels = 1, cl_path = ''y.py''\<rparr>]"

definition alice_start :: parser_state where
  "alice_start = \<lparr>cur = alice_cursor, stats = Map.empty\<rparr>"

definition makefile_line :: string where
  "makefile_line = numstat ''5'' ''2'' ''Makefile''"

definition makefile_counted :: counted_line where
  "makefile_counted =
     \<lparr>cl_author = ''Alice'', cl_commit = Some ''a1'', cl_date = Some 739257,
      cl_ins = 5, cl_dels = 2, cl_path = ''Makefile''\<rparr>"

definition makefile_log :: string where
  "makefile_log = log_text [''COMMIT|a1|Alice|2025-01-06'', makefile_line]"

definition bucket_sum :: "('v \<Rightarrow> int) \<Rightarrow> ('k \<rightharpoonup> 'v) \<Rightarrow> int" where
  \<comment> \<open>the sum of one field over the values of a dictionary\<close>
  "bucket_sum f m = (\<Sum>k\<in>dom m. f (the (m k)))"

definition negative_line :: string where
  "negative_line = numstat ''-5'' ''2'' ''src/app.ts''"

definition negative_counted :: counted_line where
  "negative_counted =
     \<lparr>cl_author = ''Alice'', cl_commit = Some ''a1'', cl_date = Some 739257,
      cl_ins = - 5, cl_dels = 2, cl_path = ''src/app.ts''\<rparr>"

definition garbled_line :: string where
  "garbled_line = numstat ''5x'' ''2'' ''src/app.ts''"

section \<open>The exclusion rule as the specification words it\<close>

fun slash_suffixes :: "string \<Rightarrow> string list" where
  \<comment> \<open>what follows each slash of a path\<close>
  "slash_suffixes [] = []"
| "slash_suffixes (c # cs) = (if c = CHR ''/'' then [cs] else []) @ slash_suffixes cs"

definition dir_style :: "string \<Rightarrow> bool" where
  \<comment> \<open>a directory-style pattern: one ending in \<^verbatim>\<open>/\<close> or \<^verbatim>\<open>/*\<close>\<close>
  "dir_style pattern = (endswith pattern ''/'' \<or> endswith pattern ''/*'')"

definition dir_prefix :: "string \<Rightarrow> string" where
  \<comment> \<open>a directory-style pattern without its final star: the directory and its slash\<close>
  "dir_prefix pattern = (if endswith pattern ''/*'' then butlast pattern else pattern)"

definition spec_should_exclude_file :: "bool \<Rightarrow> string \<Rightarrow> bool" where
  \<comment> \<open>The three conditions in the words of the specification. The third is read as
      generously as its words allow: a directory-style pattern occurs in the lower-cased
      path as it is written, or without its final star.\<close>
  "spec_should_exclude_file exclude_docs path =
     ((exclude_docs \<and> ext_of path \<in> set DOC_EXTENSIONS)
      \<or> list_ex (\<lambda>pattern. fnmatch path pattern \<or> fnmatch (basename path) pattern
                          \<or> list_ex (\<lambda>b. fnmatch b pattern) (slash_suffixes path))
                 EXCLUDE_PATTERNS
      \<or> list_ex (\<lambda>pattern. dir_style pattern
                          \<and> (contains (py_lower path) pattern
                              \<or> contains (py_lower path) (dir_prefix pattern)))
                 EXCLUDE_PATTERNS)"

section \<open>Commit groups\<close>

definition is_marker :: "string \<Rightarrow> bool" where
  \<comment> \<open>a line from which the parser takes a new commit\<close>
  "is_marker line = (startswith line ''COMMIT|'' \<and> 4 \<le> length (py_split CHR ''|'' line))"

definition commit_group :: "string list \<Rightarrow> bool" where
  \<comment> \<open>a commit line followed by the lines up to the next commit line\<close>
  "commit_group g =
     (case g of
        [] \<Rightarrow> False
      | m # ls \<Rightarrow> is_marker m \<and> list_all (\<lambda>l. \<not> is_marker l) ls)"

section \<open>Aggregation across repositories\<close>

text \<open>
  \<^verbatim>\<open>analyze_repos\<close> folds the parse result of each repository into three dictionaries
  keyed by author and then by week, extension or category. Each is a \<^verbatim>\<open>defaultdict\<close> of
  \<^verbatim>\<open>defaultdict\<close>s: an author gets an entry when the first bucket is added under it. The
  loops over \<^verbatim>\<open>stats.items()\<close> and over the buckets of an author visit every key once, so
  their effect is given key by key. The list \<^verbatim>\<open>all_data\<close> of rows, which is in the order
  of processing, and the progress output are left out; the log of a repository stands for
  the repository.
\<close>

definition merge_buckets :: "('k \<rightharpoonup> bucket) \<Rightarrow> ('k \<rightharpoonup> bucket) \<Rightarrow> ('k \<rightharpoonup> bucket)" where
  "merge_buckets acc src =
     (\<lambda>k. case src k of
            None \<Rightarrow> acc k
          | Some b \<Rightarrow>
              (let t = getdefault acc new_bucket k
               in Some (t\<lparr>bk_inserts := bk_inserts t + bk_inserts b,
                          bk_deletes := bk_deletes t + bk_deletes b\<rparr>)))"

definition merge_weeks ::
  "(date \<rightharpoonup> week_bucket) \<Rightarrow> (date \<rightharpoonup> week_bucket) \<Rightarrow> (date \<rightharpoonup> week_bucket)" where
  "merge_weeks acc src =
     (\<lambda>k. case src k of
            None \<Rightarrow> acc k
          | Some b \<Rightarrow>
              (let t = getdefault acc new_week k
               in Some (t\<lparr>wk_inserts := wk_inserts t + wk_inserts b,
                          wk_deletes := wk_deletes t + wk_deletes b,
                          wk_commits := wk_commits t \<union> wk_commits b\<rparr>)))"

definition merge_author ::
  "(('k \<rightharpoonup> 'v) \<Rightarrow> ('k \<rightharpoonup> 'v) \<Rightarrow> ('k \<rightharpoonup> 'v)) \<Rightarrow> ('k \<rightharpoonup> 'v) option \<Rightarrow> ('k \<rightharpoonup> 'v)
     \<Rightarrow> ('k \<rightharpoonup> 'v) option" where
  \<comment> \<open>the entry of one author after the buckets \<open>src\<close> of a repository were added\<close>
  "merge_author merge entry src =
     (if src = Map.empty then entry
      else Some (merge (case entry of None \<Rightarrow> Map.empty | Some t \<Rightarrow> t) src))"

record aggregates =
  weekly_stats :: "string \<rightharpoonup> (date \<rightharpoonup> week_bucket)"
  ext_stats :: "string \<rightharpoonup> (string \<rightharpoonup> bucket)"
  category_stats :: "string \<rightharpoonup> (string \<rightharpoonup> bucket)"

definition active :: "author_stats \<Rightarrow> bool" where
  \<comment> \<open>\<^verbatim>\<open>data["inserts"] > 0 or data["deletes"] > 0\<close>\<close>
  "active data = (0 < inserts data \<or> 0 < deletes data)"

definition merge_repository :: "aggregates \<Rightarrow> (string \<rightharpoonup> author_stats) \<Rightarrow> aggregates" where
  "merge_repository g repo =
     \<lparr>weekly_stats =
        (\<lambda>a. case repo a of
               None \<Rightarrow> weekly_stats g a
             | Some data \<Rightarrow>
                 if active data then merge_author merge_weeks (weekly_stats g a) (weekly data)
                 else weekly_stats g a),
      ext_stats =
        (\<lambda>a. case repo a of
               None \<Rightarrow> ext_stats g a
             | Some data \<Rightarrow>
                 if active data then merge_author merge_buckets (ext_stats g a) (by_ext data)
                 else ext_stats g a),
      category_stats =
        (\<lambda>a. case repo a of
               None \<Rightarrow> category_stats g a
             | Some data \<Rightarrow>
                 if active data
                 then merge_author merge_buckets (category_stats g a) (by_category data)
                 else category_stats g a)\<rparr>"

definition no_aggregates :: aggregates where
  "no_aggregates = \<lparr>weekly_stats = Map.empty, ext_stats = Map.empty, category_stats = Map.empty\<rparr>"

definition analyze_log :: "bool \<Rightarrow> aggregates \<Rightarrow> string \<Rightarrow> aggregates" where
  \<comment> \<open>one round of the loop over the repositories; an empty log is passed over\<close>
  "analyze_log exclude_docs g log_output =
     (if log_output = [] then g else merge_repository g (parse_git_log exclude_docs log_output))"

definition analyze_repos :: "bool \<Rightarrow> string list \<Rightarrow> aggregates" where
  "analyze_repos exclude_docs logs = foldl (analyze_log exclude_docs) no_aggregates logs"

definition png_group :: "string list" where
  "png_group = [''COMMIT|a1|Alice|2025-01-06'', numstat ''1'' ''0'' ''a.png '']"

definition bob_group :: "string list" where
  "bob_group = [''COMMIT|b1|Bob|2025-01-06'', numstat ''3'' ''0'' ''x.py'']"

definition bob_group2 :: "string list" where
  "bob_group2 = [''COMMIT|b2|Bob|2025-01-13'', numstat ''7'' ''1'' ''y.py'']"

definition tidy_group :: "string list \<Rightarrow> bool" where
  \<comment> \<open>lines that come back unchanged when the group is written last in a log: no line
      holds a newline, and the last line is not empty and does not end in whitespace\<close>
  "tidy_group g =
     (g \<noteq> [] \<and> list_all (\<lambda>l. CHR 0x0A \<notin> set l) g
      \<and> last g \<noteq> [] \<and> \<not> isspace (last (last g)))"

definition png_counted :: counted_line where
  "png_counted =
     \<lparr>cl_author = ''Alice'', cl_commit = Some ''a1'', cl_date = Some 739257,
      cl_ins = 1, cl_dels = 0, cl_path = ''a.png ''\<rparr>"

definition x_py_counted :: counted_line where
  "x_py_counted =
     \<lparr>cl_author = ''Bob'', cl_commit = Some ''b1'', cl_date = Some 739257,
      cl_ins = 3, cl_dels = 0, cl_path = ''x.py''\<rparr>"

section \<open>The scan as a fold over the counted lines\<close>

lemma scan_stats:
  "stats (foldl (process_line xd) st ls) = foldl fold_into (stats st) (counted_lines xd (cur st) ls)"
  by (induction ls arbitrary: st) (simp_all add: process_line_def split: option.splits)

lemma parse_git_log_counted:
  "parse_git_log xd log = foldl fold_into Map.empty (counted_lines xd no_cursor (log_lines log))"
  by (simp add: parse_git_log_def scan_stats initial_state_def)

lemma dom_fold_into: "dom (fold_into m e) = insert (cl_author e) (dom m)"
  by (simp add: fold_into_def Let_def)

lemma dom_foldl_fold_into: "dom (foldl fold_into m es) = dom m \<union> cl_author ` set es"
  by (induction es arbitrary: m) (auto simp: dom_fold_into)

lemma fold_into_other: "a \<noteq> cl_author e \<Longrightarrow> fold_into m e a = m a"
  by (simp add: fold_into_def Let_def)

lemma stat_of_fold_into_other: "a \<noteq> cl_author e \<Longrightarrow> stat_of (fold_into m e) a = stat_of m a"
  by (simp add: stat_of_def getdefault_def fold_into_other)

lemma stat_of_Some: "m a = Some s \<Longrightarrow> stat_of m a = s"
  by (simp add: stat_of_def getdefault_def)

lemma stat_of_empty: "stat_of Map.empty a = new_author"
  by (simp add: stat_of_def getdefault_def)

lemma commits_fold_into:
  "commits (stat_of (fold_into m e) a) =
     (if a = cl_author e then insert (cl_commit e) (commits (stat_of m a)) else commits (stat_of m a))"
  by (simp add: fold_into_def Let_def stat_of_def getdefault_def split: option.splits)

lemma inserts_fold_into:
  "inserts (stat_of (fold_into m e) a) =
     (if a = cl_author e then inserts (stat_of m a) + cl_ins e else inserts (stat_of m a))"
  by (simp add: fold_into_def Let_def stat_of_def getdefault_def split: option.splits)

lemma deletes_fold_into:
  "deletes (stat_of (fold_into m e) a) =
     (if a = cl_author e then deletes (stat_of m a) + cl_dels e else deletes (stat_of m a))"
  by (simp add: fold_into_def Let_def stat_of_def getdefault_def split: option.splits)

lemma by_category_fold_into:
  "by_category (stat_of (fold_into m e) a) =
     (if a = cl_author e
      then add_bucket (by_category (stat_of m a)) (get_file_category (cl_path e)) (cl_ins e) (cl_dels e)
      else by_category (stat_of m a))"
  by (simp add: fold_into_def Let_def stat_of_def getdefault_def split: option.splits)

lemma by_ext_fold_into:
  "by_ext (stat_of (fold_into m e) a) =
     (if a = cl_author e \<and> snd (splitext (py_lower (cl_path e))) \<noteq> []
      then add_bucket (by_ext (stat_of m a)) (snd (splitext (py_lower (cl_path e)))) (cl_ins e) (cl_dels e)
      else by_ext (stat_of m a))"
  by (simp add: fold_into_def Let_def stat_of_def getdefault_def split: option.splits)

lemma weekly_fold_into:
  "weekly (stat_of (fold_into m e) a) =
     (case cl_date e of
        Some d \<Rightarrow> if a = cl_author e
                  then add_week (weekly (stat_of m a)) (week_start d) (cl_ins e) (cl_dels e) (cl_commit e)
                  else weekly (stat_of m a)
      | None \<Rightarrow> weekly (stat_of m a))"
  by (simp add: fold_into_def Let_def stat_of_def getdefault_def split: option.splits)

lemma commits_foldl:
  "commits (stat_of (foldl fold_into m es) a) =
     commits (stat_of m a) \<union> cl_commit ` {e \<in> set es. cl_author e = a}"
  by (induction es arbitrary: m) (auto simp: commits_fold_into)

lemma numstat_line_skip:
  assumes "length (py_split (CHR 0x09) line) \<noteq> 3
         \<or> current_author c = None \<or> current_author c = Some []
         \<or> (\<exists>i d p. py_split (CHR 0x09) line = [i, d, p]
              \<and> (i = ''-'' \<or> d = ''-'' \<or> should_exclude_file xd p \<or> py_int i = None \<or> py_int d = None))"
  shows "numstat_line xd c line = None"
  using assms by (auto simp: numstat_line_def split: list.splits option.splits)

section \<open>What one counted line changes\<close>

lemma numstat_line_SomeD:
  assumes "numstat_line xd c line = Some e"
  shows "current_author c = Some (cl_author e)" and "cl_author e \<noteq> []"
    and "cl_commit e = current_commit c" and "cl_date e = current_date c"
    and "\<exists>i d. py_split (CHR 0x09) line = [i, d, cl_path e]
           \<and> i \<noteq> ''-'' \<and> d \<noteq> ''-'' \<and> \<not> should_exclude_file xd (cl_path e)
           \<and> py_int i = Some (cl_ins e) \<and> py_int d = Some (cl_dels e)"
  using assms
  by (auto simp: numstat_line_def split: list.splits option.splits if_splits)

lemma add_week_same:
  "add_week m k i d c k =
     Some \<lparr>wk_inserts = wk_inserts (getdefault m new_week k) + i,
           wk_deletes = wk_deletes (getdefault m new_week k) + d,
           wk_commits = insert c (wk_commits (getdefault m new_week k))\<rparr>"
  by (simp add: add_week_def Let_def)

lemma add_week_other: "w \<noteq> k \<Longrightarrow> add_week m k i d c w = m w"
  by (simp add: add_week_def Let_def)

lemma dom_add_week: "dom (add_week m k i d c) = insert k (dom m)"
  by (simp add: add_week_def Let_def)

lemma add_bucket_same:
  "add_bucket m k i d k =
     Some \<lparr>bk_inserts = bk_inserts (getdefault m new_bucket k) + i,
           bk_deletes = bk_deletes (getdefault m new_bucket k) + d\<rparr>"
  by (simp add: add_bucket_def Let_def)

lemma add_bucket_other: "k' \<noteq> k \<Longrightarrow> add_bucket m k i d k' = m k'"
  by (simp add: add_bucket_def Let_def)

lemma dom_add_bucket: "dom (add_bucket m k i d) = insert k (dom m)"
  by (simp add: add_bucket_def Let_def)



lemma wk_commits_fold_into:
  "wk_commits (week_of (stat_of (fold_into m e) a) w) =
     (if a = cl_author e \<and> week_key e = Some w
      then insert (cl_commit e) (wk_commits (week_of (stat_of m a) w))
      else wk_commits (week_of (stat_of m a) w))"
  by (cases "cl_date e")
     (auto simp: week_of_def week_key_def weekly_fold_into getdefault_def add_week_same
                 add_week_other)

lemma wk_commits_foldl:
  "wk_commits (week_of (stat_of (foldl fold_into m es) a) w) =
     wk_commits (week_of (stat_of m a) w)
     \<union> cl_commit ` {e \<in> set es. cl_author e = a \<and> week_key e = Some w}"
  by (induction es arbitrary: m) (auto simp: wk_commits_fold_into)

lemma dom_weekly_fold_into:
  "dom (weekly (stat_of (fold_into m e) a)) =
     (if a = cl_author e \<and> week_key e \<noteq> None
      then insert (the (week_key e)) (dom (weekly (stat_of m a)))
      else dom (weekly (stat_of m a)))"
  by (cases "cl_date e") (auto simp: week_key_def weekly_fold_into dom_add_week)

lemma dom_weekly_foldl:
  "dom (weekly (stat_of (foldl fold_into m es) a)) =
     dom (weekly (stat_of m a))
     \<union> {w. \<exists>e\<in>set es. cl_author e = a \<and> week_key e = Some w}"
  by (induction es arbitrary: m) (auto simp: dom_weekly_fold_into)


lemma startswith_nonempty: "startswith l (p # ps) \<Longrightarrow> l \<noteq> []"
  by (cases l) simp_all

lemma commit_line_accepted:
  assumes "4 \<le> length (py_split CHR ''|'' line)"
    and "\<not> should_exclude_author (py_strip (py_split CHR ''|'' line ! 2))"
  shows "commit_line c line =
           \<lparr>current_author = Some (py_strip (py_split CHR ''|'' line ! 2)),
            current_commit = Some (py_split CHR ''|'' line ! 1),
            current_date = strptime (py_split CHR ''|'' line ! 3)\<rparr>"
  using assms by (simp add: commit_line_def Let_def)

lemma wk_commits_new_author: "wk_commits (week_of new_author w) = {}"
  by (simp add: week_of_def getdefault_def new_author_def new_week_def)

lemma week_of_Some: "weekly s w = Some b \<Longrightarrow> week_of s w = b"
  by (simp add: week_of_def getdefault_def)

lemma dom_by_ext_fold_into:
  "dom (by_ext (stat_of (fold_into m e) a)) =
     (if a = cl_author e \<and> ext_of (cl_path e) \<noteq> []
      then insert (ext_of (cl_path e)) (dom (by_ext (stat_of m a)))
      else dom (by_ext (stat_of m a)))"
  by (simp add: by_ext_fold_into dom_add_bucket ext_of_def)

lemma dom_by_ext_foldl:
  "dom (by_ext (stat_of (foldl fold_into m es) a)) =
     dom (by_ext (stat_of m a))
     \<union> {x. \<exists>e\<in>set es. cl_author e = a \<and> ext_of (cl_path e) = x \<and> x \<noteq> []}"
  by (induction es arbitrary: m) (auto simp: dom_by_ext_fold_into)

lemma counted_lines_unset:
  "current_author c = None \<Longrightarrow> \<forall>l\<in>set ls. \<not> startswith l ''COMMIT|'' \<Longrightarrow> counted_lines xd c ls = []"
  by (induction ls) (simp_all add: numstat_line_def split: list.splits)

lemma commit_line_excluded:
  "4 \<le> length (py_split CHR ''|'' line) \<Longrightarrow> should_exclude_author (py_strip (py_split CHR ''|'' line ! 2))
    \<Longrightarrow> current_author (commit_line c line) = None"
  by (simp add: commit_line_def Let_def)

lemma commit_line_short:
  "\<not> 4 \<le> length (py_split CHR ''|'' line) \<Longrightarrow> commit_line c line = c"
  by (simp add: commit_line_def Let_def)

section \<open>Sums over the buckets\<close>

lemma bucket_sum_upd:
  assumes "finite (dom m)"
  shows "bucket_sum f (m(k \<mapsto> v)) = bucket_sum f m - (case m k of None \<Rightarrow> 0 | Some u \<Rightarrow> f u) + f v"
proof -
  let ?g = "\<lambda>x. f (the (m x))"
  let ?g' = "\<lambda>x. f (the ((m(k \<mapsto> v)) x))"
  have "sum ?g' (insert k (dom m)) = ?g' k + sum ?g' (dom m - {k})"
    using assms by (rule sum.insert_remove)
  moreover have "sum ?g' (dom m - {k}) = sum ?g (dom m - {k})"
    by (rule sum.cong) auto
  ultimately have new: "bucket_sum f (m(k \<mapsto> v)) = f v + sum ?g (dom m - {k})"
    by (simp add: bucket_sum_def)
  have old: "bucket_sum f m = (case m k of None \<Rightarrow> 0 | Some u \<Rightarrow> f u) + sum ?g (dom m - {k})"
  proof (cases "m k")
    case None
    then have "dom m - {k} = dom m" by auto
    with None show ?thesis by (simp add: bucket_sum_def)
  next
    case (Some u)
    then have "k \<in> dom m" by auto
    with assms have "sum ?g (dom m) = ?g k + sum ?g (dom m - {k})"
      by (rule sum.remove)
    with Some show ?thesis by (simp add: bucket_sum_def)
  qed
  from new old show ?thesis by simp
qed

lemma bucket_sum_empty: "bucket_sum f Map.empty = 0"
  by (simp add: bucket_sum_def)

lemma bucket_sum_add_bucket:
  assumes "finite (dom m)"
  shows "bucket_sum bk_inserts (add_bucket m k i d) = bucket_sum bk_inserts m + i"
    and "bucket_sum bk_deletes (add_bucket m k i d) = bucket_sum bk_deletes m + d"
  using assms
  by (simp_all add: add_bucket_def Let_def bucket_sum_upd getdefault_def new_bucket_def
               split: option.splits)

lemma bucket_sum_add_week:
  assumes "finite (dom m)"
  shows "bucket_sum wk_inserts (add_week m k i d c) = bucket_sum wk_inserts m + i"
    and "bucket_sum wk_deletes (add_week m k i d c) = bucket_sum wk_deletes m + d"
  using assms
  by (simp_all add: add_week_def Let_def bucket_sum_upd getdefault_def new_week_def
               split: option.splits)

lemma dom_by_category_fold_into:
  "dom (by_category (stat_of (fold_into m e) a)) =
     (if a = cl_author e
      then insert (get_file_category (cl_path e)) (dom (by_category (stat_of m a)))
      else dom (by_category (stat_of m a)))"
  by (simp add: by_category_fold_into dom_add_bucket)

lemma finite_doms_fold_into:
  "finite (dom (by_category (stat_of m a))) \<Longrightarrow> finite (dom (by_category (stat_of (fold_into m e) a)))"
  "finite (dom (by_ext (stat_of m a))) \<Longrightarrow> finite (dom (by_ext (stat_of (fold_into m e) a)))"
  "finite (dom (weekly (stat_of m a))) \<Longrightarrow> finite (dom (weekly (stat_of (fold_into m e) a)))"
  by (auto simp: dom_by_category_fold_into dom_by_ext_fold_into dom_weekly_fold_into)

lemma finite_doms_foldl:
  "finite (dom (by_category (stat_of m a))) \<Longrightarrow> finite (dom (by_category (stat_of (foldl fold_into m es) a)))"
  "finite (dom (by_ext (stat_of m a))) \<Longrightarrow> finite (dom (by_ext (stat_of (foldl fold_into m es) a)))"
  "finite (dom (weekly (stat_of m a))) \<Longrightarrow> finite (dom (weekly (stat_of (foldl fold_into m es) a)))"
  by (induction es arbitrary: m) (simp_all add: finite_doms_fold_into)

lemma inserts_foldl:
  "inserts (stat_of (foldl fold_into m es) a) =
     inserts (stat_of m a) + sum_list (map cl_ins (filter (\<lambda>e. cl_author e = a) es))"
  by (induction es arbitrary: m) (simp_all add: inserts_fold_into)

lemma deletes_foldl:
  "deletes (stat_of (foldl fold_into m es) a) =
     deletes (stat_of m a) + sum_list (map cl_dels (filter (\<lambda>e. cl_author e = a) es))"
  by (induction es arbitrary: m) (simp_all add: deletes_fold_into)

lemma category_sum_foldl:
  assumes "finite (dom (by_category (stat_of m a)))"
  shows "bucket_sum bk_inserts (by_category (stat_of (foldl fold_into m es) a)) =
           bucket_sum bk_inserts (by_category (stat_of m a))
           + sum_list (map cl_ins (filter (\<lambda>e. cl_author e = a) es))"
    and "bucket_sum bk_deletes (by_category (stat_of (foldl fold_into m es) a)) =
           bucket_sum bk_deletes (by_category (stat_of m a))
           + sum_list (map cl_dels (filter (\<lambda>e. cl_author e = a) es))"
  using assms
  by (induction es arbitrary: m)
     (simp_all add: by_category_fold_into bucket_sum_add_bucket dom_add_bucket)

lemma ext_sum_foldl:
  assumes "finite (dom (by_ext (stat_of m a)))"
  shows "bucket_sum bk_inserts (by_ext (stat_of (foldl fold_into m es) a)) =
           bucket_sum bk_inserts (by_ext (stat_of m a))
           + sum_list (map cl_ins (filter (\<lambda>e. cl_author e = a \<and> ext_of (cl_path e) \<noteq> []) es))"
    and "bucket_sum bk_deletes (by_ext (stat_of (foldl fold_into m es) a)) =
           bucket_sum bk_deletes (by_ext (stat_of m a))
           + sum_list (map cl_dels (filter (\<lambda>e. cl_author e = a \<and> ext_of (cl_path e) \<noteq> []) es))"
  using assms
  by (induction es arbitrary: m)
     (auto simp: by_ext_fold_into bucket_sum_add_bucket dom_add_bucket ext_of_def)

lemma weekly_sum_foldl:
  assumes "finite (dom (weekly (stat_of m a)))"
  shows "bucket_sum wk_inserts (weekly (stat_of (foldl fold_into m es) a)) =
           bucket_sum wk_inserts (weekly (stat_of m a))
           + sum_list (map cl_ins (filter (\<lambda>e. cl_author e = a \<and> cl_date e \<noteq> None) es))"
    and "bucket_sum wk_deletes (weekly (stat_of (foldl fold_into m es) a)) =
           bucket_sum wk_deletes (weekly (stat_of m a))
           + sum_list (map cl_dels (filter (\<lambda>e. cl_author e = a \<and> cl_date e \<noteq> None) es))"
  using assms
proof (induction es arbitrary: m)
  case Nil
  {
    case 1 show ?case by simp
  next
    case 2 show ?case by simp
  }
next
  case (Cons e es)
  {
    case 1
    then show ?case
      using Cons.IH(1) [of "fold_into m e"]
      by (cases "cl_date e")
         (simp_all add: weekly_fold_into bucket_sum_add_week dom_add_week)
  next
    case 2
    then show ?case
      using Cons.IH(2) [of "fold_into m e"]
      by (cases "cl_date e")
         (simp_all add: weekly_fold_into bucket_sum_add_week dom_add_week)
  }
qed

lemma sum_list_filter_le:
  "\<forall>x\<in>set xs. P x \<longrightarrow> (0::int) \<le> f x \<Longrightarrow>
     sum_list (map f (filter (\<lambda>x. P x \<and> Q x) xs)) \<le> sum_list (map f (filter P xs))"
  by (induction xs) auto

lemma sum_list_filter_eq:
  "\<forall>x\<in>set xs. P x \<longrightarrow> Q x \<Longrightarrow>
     filter (\<lambda>x. P x \<and> Q x) xs = filter P xs"
  by (induction xs) auto

section \<open>Patterns and substrings\<close>

lemma startswith_iff: "startswith s p \<longleftrightarrow> (\<exists>b. s = p @ b)"
  by (induction s p rule: startswith.induct) auto

lemma contains_iff: "contains s sub \<longleftrightarrow> (\<exists>a b. s = a @ sub @ b)"
proof (induction s)
  case Nil
  then show ?case by simp
next
  case (Cons c cs)
  show ?case
  proof
    assume "contains (c # cs) sub"
    then consider "startswith (c # cs) sub" | "contains cs sub" by auto
    then show "\<exists>a b. c # cs = a @ sub @ b"
    proof cases
      case 1
      then obtain b where "c # cs = sub @ b" by (auto simp: startswith_iff)
      then have "c # cs = [] @ sub @ b" by simp
      then show ?thesis by blast
    next
      case 2
      with Cons.IH obtain a b where "cs = a @ sub @ b" by blast
      then have "c # cs = (c # a) @ sub @ b" by simp
      then show ?thesis by blast
    qed
  next
    assume "\<exists>a b. c # cs = a @ sub @ b"
    then obtain a b where ab: "c # cs = a @ sub @ b" by blast
    show "contains (c # cs) sub"
    proof (cases a)
      case Nil
      with ab have "startswith (c # cs) sub" by (auto simp: startswith_iff)
      then show ?thesis by simp
    next
      case (Cons x a')
      with ab have "cs = a' @ sub @ b" by simp
      with Cons.IH have "contains cs sub" by blast
      then show ?thesis by simp
    qed
  qed
qed

lemma fnmatch_star: "fnmatch s (CHR ''*'' # ps) \<longleftrightarrow> (\<exists>a b. s = a @ b \<and> fnmatch b ps)"
proof (induction s)
  case Nil
  then show ?case by simp
next
  case (Cons c t)
  have "fnmatch (c # t) (CHR ''*'' # ps) \<longleftrightarrow> fnmatch (c # t) ps \<or> fnmatch t (CHR ''*'' # ps)"
    by simp
  also have "\<dots> \<longleftrightarrow> fnmatch (c # t) ps \<or> (\<exists>a b. t = a @ b \<and> fnmatch b ps)"
    using Cons.IH by simp
  also have "\<dots> \<longleftrightarrow> (\<exists>a b. c # t = a @ b \<and> fnmatch b ps)"
  proof
    assume "fnmatch (c # t) ps \<or> (\<exists>a b. t = a @ b \<and> fnmatch b ps)"
    then show "\<exists>a b. c # t = a @ b \<and> fnmatch b ps"
    proof
      assume "fnmatch (c # t) ps"
      then have "c # t = [] @ (c # t) \<and> fnmatch (c # t) ps" by simp
      then show ?thesis by blast
    next
      assume "\<exists>a b. t = a @ b \<and> fnmatch b ps"
      then obtain a b where "t = a @ b" "fnmatch b ps" by blast
      then have "c # t = (c # a) @ b \<and> fnmatch b ps" by simp
      then show ?thesis by blast
    qed
  next
    assume "\<exists>a b. c # t = a @ b \<and> fnmatch b ps"
    then obtain a b where ab: "c # t = a @ b" "fnmatch b ps" by blast
    show "fnmatch (c # t) ps \<or> (\<exists>a b. t = a @ b \<and> fnmatch b ps)"
    proof (cases a)
      case Nil
      with ab show ?thesis by simp
    next
      case (Cons x a')
      with ab have "t = a' @ b" by simp
      with ab(2) show ?thesis by blast
    qed
  qed
  finally show ?case .
qed

lemma fnmatch_slash: "fnmatch s (CHR ''/'' # ps) \<longleftrightarrow> (\<exists>t. s = CHR ''/'' # t \<and> fnmatch t ps)"
  by (cases s) auto

lemma fnmatch_any_dir:
  "fnmatch s (''*/'' @ pat) \<longleftrightarrow> (\<exists>a b. s = a @ CHR ''/'' # b \<and> fnmatch b pat)"
proof -
  have "fnmatch s (''*/'' @ pat) \<longleftrightarrow> (\<exists>a b. s = a @ b \<and> fnmatch b (CHR ''/'' # pat))"
    using fnmatch_star [of s "CHR ''/'' # pat"] by simp
  also have "\<dots> \<longleftrightarrow> (\<exists>a b. s = a @ CHR ''/'' # b \<and> fnmatch b pat)"
    unfolding fnmatch_slash by blast
  finally show ?thesis .
qed

lemma slash_suffixes_iff: "b \<in> set (slash_suffixes p) \<longleftrightarrow> (\<exists>a. p = a @ CHR ''/'' # b)"
proof (induction p)
  case Nil
  then show ?case by simp
next
  case (Cons c cs)
  show ?case
  proof
    assume "b \<in> set (slash_suffixes (c # cs))"
    then consider "c = CHR ''/''" "b = cs" | "b \<in> set (slash_suffixes cs)"
      by (auto split: if_splits)
    then show "\<exists>a. c # cs = a @ CHR ''/'' # b"
    proof cases
      case 1
      then have "c # cs = [] @ CHR ''/'' # b" by simp
      then show ?thesis by blast
    next
      case 2
      with Cons.IH obtain a where "cs = a @ CHR ''/'' # b" by blast
      then have "c # cs = (c # a) @ CHR ''/'' # b" by simp
      then show ?thesis by blast
    qed
  next
    assume "\<exists>a. c # cs = a @ CHR ''/'' # b"
    then obtain a where a: "c # cs = a @ CHR ''/'' # b" by blast
    show "b \<in> set (slash_suffixes (c # cs))"
    proof (cases a)
      case Nil
      with a show ?thesis by simp
    next
      case (Cons x a')
      with a have "cs = a' @ CHR ''/'' # b" by simp
      with Cons.IH have "b \<in> set (slash_suffixes cs)" by blast
      then show ?thesis by simp
    qed
  qed
qed

lemma EXCLUDE_PATTERNS_plain: "list_all (\<lambda>pat. CHR ''['' \<notin> set pat) EXCLUDE_PATTERNS"
  by code_simp

lemma EXCLUDE_PATTERNS_dirs:
  "list_all (\<lambda>pat. (CHR ''/'' \<in> set pat \<and> dir_pattern pat \<noteq> []) = dir_style pat) EXCLUDE_PATTERNS"
  by code_simp

lemma dir_style_iff:
  "pat \<in> set EXCLUDE_PATTERNS \<Longrightarrow> (CHR ''/'' \<in> set pat \<and> dir_pattern pat \<noteq> []) = dir_style pat"
  using EXCLUDE_PATTERNS_dirs by (simp add: list_all_iff)

lemma pattern_excludes_iff:
  assumes "pat \<in> set EXCLUDE_PATTERNS"
  shows "pattern_excludes p pat \<longleftrightarrow>
           fnmatch p pat \<or> fnmatch (basename p) pat
           \<or> (\<exists>a b. p = a @ CHR ''/'' # b \<and> fnmatch b pat)
           \<or> (dir_style pat \<and> contains (py_lower p) (dir_pattern pat))"
  using dir_style_iff [OF assms] fnmatch_any_dir [of p pat]
  unfolding pattern_excludes_def by blast

lemma FILE_CATEGORIES_distinct: "distinct (map fst FILE_CATEGORIES)"
  by code_simp

section \<open>The calendar\<close>

lemma weekday_week_start: "weekday (week_start d) = 0"
  unfolding weekday_def week_start_def by presburger

lemma week_start_le: "week_start d \<le> d \<and> d < week_start d + 7"
  unfolding weekday_def week_start_def
  by (simp add: pos_mod_bound)

lemma week_start_ge_1: "1 \<le> d \<Longrightarrow> 1 \<le> week_start d"
  unfolding weekday_def week_start_def by presburger

lemma days_before_month_nonneg: "0 \<le> days_before_month y m"
  unfolding days_before_month_def
  by (rule sum_list_nonneg) (auto simp: days_in_month_def)

lemma days_before_year_nonneg:
  assumes "1 \<le> y"
  shows "0 \<le> days_before_year y"
proof -
  have a: "0 \<le> y - 1" using assms by simp
  then have "(y - 1) div 100 \<le> (y - 1) div 4"
    by (intro zdiv_mono2) simp_all
  moreover have "0 \<le> (y - 1) div 400" using a by (simp add: pos_imp_zdiv_nonneg_iff)
  moreover have "0 \<le> (y - 1) * 365" using a by simp
  ultimately show ?thesis unfolding days_before_year_def by linarith
qed

lemma make_date_ge_1: "make_date y m d = Some x \<Longrightarrow> 1 \<le> x"
  using days_before_month_nonneg [of y m] days_before_year_nonneg [of y]
  by (auto simp: make_date_def ymd2ord_def split: if_splits)

lemma strptime_ge_1:
  assumes "strptime s = Some d"
  shows "1 \<le> d"
proof -
  from assms obtain y m d' where "make_date y m d' = Some d"
    unfolding strptime_def
    by (auto split: option.splits list.splits if_splits prod.splits)
  then show ?thesis by (rule make_date_ge_1)
qed

section \<open>Commit groups\<close>

lemma counted_lines_append:
  "\<exists>c'. counted_lines xd c (xs @ ys) = counted_lines xd c xs @ counted_lines xd c' ys"
proof (induction xs arbitrary: c)
  case Nil
  show ?case by (rule exI [of _ c]) simp
next
  case (Cons l xs)
  show ?case
  proof (cases "l \<noteq> [] \<and> startswith l ''COMMIT|''")
    case True
    from Cons.IH [of "commit_line c l"] obtain c' where
      eq: "counted_lines xd (commit_line c l) (xs @ ys)
         = counted_lines xd (commit_line c l) xs @ counted_lines xd c' ys" ..
    have "counted_lines xd c ((l # xs) @ ys)
        = counted_lines xd c (l # xs) @ counted_lines xd c' ys"
      using True eq by simp
    then show ?thesis ..
  next
    case False
    from Cons.IH [of c] obtain c' where
      eq: "counted_lines xd c (xs @ ys) = counted_lines xd c xs @ counted_lines xd c' ys" ..
    have "counted_lines xd c ((l # xs) @ ys)
        = counted_lines xd c (l # xs) @ counted_lines xd c' ys"
      using False eq by (cases "numstat_line xd c l") auto
    then show ?thesis ..
  qed
qed

lemma numstat_line_unset: "current_author c = None \<Longrightarrow> numstat_line xd c l = None"
  by (simp add: numstat_line_def split: list.splits)

lemma counted_lines_rest:
  assumes "list_all (\<lambda>l. \<not> is_marker l) ls"
    and "c = c' \<or> (current_author c = None \<and> current_author c' = None)"
  shows "counted_lines xd c ls = counted_lines xd c' ls"
  using assms
proof (induction ls)
  case Nil
  then show ?case by simp
next
  case (Cons l ls)
  then have rest: "counted_lines xd c ls = counted_lines xd c' ls" by simp
  show ?case
  proof (cases "startswith l ''COMMIT|''")
    case True
    with Cons.prems(1) have "\<not> 4 \<le> length (py_split CHR ''|'' l)"
      by (simp add: is_marker_def)
    then have "commit_line c l = c" "commit_line c' l = c'"
      by (simp_all add: commit_line_short)
    with True rest show ?thesis by simp
  next
    case False
    from Cons.prems(2) have "numstat_line xd c l = numstat_line xd c' l"
      by (auto simp: numstat_line_unset)
    with False show ?thesis unfolding counted_lines.simps rest by simp
  qed
qed

lemma commit_line_marker:
  assumes "is_marker m"
  shows "commit_line c m = commit_line c' m
         \<or> (current_author (commit_line c m) = None \<and> current_author (commit_line c' m) = None)"
proof (cases "should_exclude_author (py_strip (py_split CHR ''|'' m ! 2))")
  case True
  with assms have "current_author (commit_line c m) = None"
    and "current_author (commit_line c' m) = None"
    by (simp_all add: is_marker_def commit_line_excluded)
  then show ?thesis by simp
next
  case False
  with assms have "commit_line c m = commit_line c' m"
    by (simp add: is_marker_def commit_line_accepted)
  then show ?thesis by simp
qed

lemma counted_lines_group:
  assumes "commit_group g"
  shows "counted_lines xd c g = counted_lines xd no_cursor g"
proof -
  from assms obtain m ls where g: "g = m # ls" and m: "is_marker m"
    and ls: "list_all (\<lambda>l. \<not> is_marker l) ls"
    by (auto simp: commit_group_def split: list.splits)
  from m have ne: "m \<noteq> []" "startswith m ''COMMIT|''"
    by (auto simp: is_marker_def dest: startswith_nonempty)
  have "counted_lines xd (commit_line c m) ls = counted_lines xd (commit_line no_cursor m) ls"
    using ls commit_line_marker [OF m] by (rule counted_lines_rest)
  with g ne show ?thesis by simp
qed

lemma counted_lines_groups:
  assumes "\<forall>g\<in>set gs. commit_group g"
  shows "counted_lines xd c (concat gs) = concat (map (counted_lines xd no_cursor) gs)"
  using assms
proof (induction gs arbitrary: c)
  case Nil
  then show ?case by simp
next
  case (Cons g gs)
  from counted_lines_append [of xd c g "concat gs"] obtain c' where
    a: "counted_lines xd c (g @ concat gs)
      = counted_lines xd c g @ counted_lines xd c' (concat gs)" ..
  from Cons.prems have "commit_group g" by simp
  then have b: "counted_lines xd c g = counted_lines xd no_cursor g"
    by (rule counted_lines_group)
  from Cons.prems have "\<forall>g\<in>set gs. commit_group g" by simp
  then have d: "counted_lines xd c' (concat gs) = concat (map (counted_lines xd no_cursor) gs)"
    by (rule Cons.IH)
  have "counted_lines xd c (concat (g # gs)) = counted_lines xd c (g @ concat gs)" by simp
  also note a
  also note b
  also note d
  finally show ?case by simp
qed


lemma mset_concat_map:
  "mset gs = mset gs' \<Longrightarrow> mset (concat (map f gs)) = mset (concat (map f gs'))"
proof -
  assume "mset gs = mset gs'"
  then have "image_mset (\<lambda>g. mset (f g)) (mset gs) = image_mset (\<lambda>g. mset (f g)) (mset gs')"
    by simp
  then have "sum_mset (image_mset (\<lambda>g. mset (f g)) (mset gs))
           = sum_mset (image_mset (\<lambda>g. mset (f g)) (mset gs'))"
    by simp
  moreover have "\<And>xs. mset (concat (map f xs)) = sum_mset (image_mset (\<lambda>g. mset (f g)) (mset xs))"
    by (induct_tac xs) simp_all
  ultimately show ?thesis by simp
qed

lemma py_split_nonempty: "py_split sep s \<noteq> []"
  by (induction s) (auto split: list.splits)

lemma py_split_whole: "sep \<notin> set l \<Longrightarrow> py_split sep l = [l]"
  by (induction l) auto

lemma py_split_first:
  "sep \<notin> set l \<Longrightarrow> py_split sep (l @ sep # rest) = l # py_split sep rest"
  by (induction l) auto

lemma py_split_lines:
  assumes "\<forall>l\<in>set ls. CHR 0x0A \<notin> set l" and "CHR 0x0A \<notin> set final"
  shows "py_split (CHR 0x0A) (log_text ls @ final) = ls @ [final]"
  using assms
proof (induction ls)
  case Nil
  then show ?case by (simp add: log_text_def py_split_whole)
next
  case (Cons l ls)
  have "log_text (l # ls) @ final = l @ CHR 0x0A # (log_text ls @ final)"
    by (simp add: log_text_def)
  with Cons show ?case by (simp add: py_split_first)
qed

lemma py_strip_log_text:
  assumes "t \<noteq> []" and "\<not> isspace (hd t)"
    and "t = body @ final" and "final \<noteq> []" and "\<not> isspace (last final)"
  shows "py_strip (t @ [CHR 0x0A]) = t"
proof -
  have nl: "isspace (CHR 0x0A)" by (simp add: isspace_def)
  from assms(1,2) have "dropWhile isspace (t @ [CHR 0x0A]) = t @ [CHR 0x0A]"
    by (cases t) simp_all
  moreover have "dropWhile isspace (rev (t @ [CHR 0x0A])) = rev t"
  proof -
    from assms(4) obtain c cs where r: "rev final = c # cs" by (cases "rev final") simp_all
    then have "c = last final" using assms(4) by (metis last_rev list.sel(1) rev_rev_ident hd_rev)
    with assms(5) have "\<not> isspace c" by simp
    with r assms(3) nl show ?thesis by simp
  qed
  ultimately show ?thesis by (simp add: py_strip_def)
qed

lemma log_lines_log_text:
  assumes "ls \<noteq> []" and "\<forall>l\<in>set ls. CHR 0x0A \<notin> set l"
    and "hd ls \<noteq> []" and "\<not> isspace (hd (hd ls))"
    and "last ls \<noteq> []" and "\<not> isspace (last (last ls))"
  shows "log_lines (log_text ls) = ls"
proof -
  from assms(1) obtain xs final where ls: "ls = xs @ [final]"
    by (metis rev_exhaust)
  with assms(5,6) have final: "final \<noteq> []" "\<not> isspace (last final)" by simp_all
  let ?t = "log_text xs @ final"
  have tx: "log_text ls = ?t @ [CHR 0x0A]"
    by (simp add: ls log_text_def)
  have ne: "?t \<noteq> []" using final by simp
  have "hd ?t = hd (hd ls)"
  proof (cases xs)
    case Nil
    with ls final show ?thesis by (simp add: log_text_def)
  next
    case (Cons x xs')
    with ls assms(3) show ?thesis by (cases x) (simp_all add: log_text_def)
  qed
  with assms(4) have "\<not> isspace (hd ?t)" by simp
  with ne have "py_strip (?t @ [CHR 0x0A]) = ?t"
    using final by (intro py_strip_log_text [where body = "log_text xs" and final = final]) simp_all
  then have "log_lines (log_text ls) = py_split (CHR 0x0A) ?t"
    by (simp add: log_lines_def tx)
  also have "\<dots> = xs @ [final]"
    using assms(2) ls by (intro py_split_lines) simp_all
  finally show ?thesis by (simp add: ls)
qed

lemma log_lines_groups:
  assumes "gs \<noteq> []" and "\<forall>g\<in>set gs. commit_group g \<and> tidy_group g"
  shows "log_lines (log_text (concat gs)) = concat gs"
proof (rule log_lines_log_text)
  from assms obtain g gs' where gs: "gs = g # gs'" by (cases gs) auto
  with assms(2) obtain m ls where g: "g = m # ls" and m: "is_marker m"
    by (auto simp: commit_group_def split: list.splits)
  from gs g show "concat gs \<noteq> []" by simp
  from gs g have hd: "hd (concat gs) = m" by simp
  from m obtain r where "m = ''COMMIT|'' @ r" by (auto simp: is_marker_def startswith_iff)
  then have "m \<noteq> []" "hd m = CHR ''C''" by simp_all
  with hd show "hd (concat gs) \<noteq> []" "\<not> isspace (hd (hd (concat gs)))"
    by (simp_all add: isspace_def)
  show "\<forall>l\<in>set (concat gs). CHR 0x0A \<notin> set l"
    using assms(2) by (auto simp: tidy_group_def list_all_iff)
  from assms(1) obtain hs z where z: "gs = hs @ [z]" by (metis rev_exhaust)
  with assms(2) have tz: "tidy_group z" by simp
  then have "z \<noteq> []" by (simp add: tidy_group_def)
  with z have "last (concat gs) = last z" by simp
  with tz show "last (concat gs) \<noteq> []" "\<not> isspace (last (last (concat gs)))"
    by (simp_all add: tidy_group_def)
qed

section \<open>The order of counted lines and of repositories\<close>

lemma author_stats_eqI:
  fixes s s' :: author_stats
  assumes "commits s = commits s'" "inserts s = inserts s'" "deletes s = deletes s'"
    "weekly s = weekly s'" "by_ext s = by_ext s'" "by_category s = by_category s'"
  shows "s = s'"
  using assms by (cases s, cases s') simp

lemma stats_eqI:
  assumes "dom m = dom m'" and "\<And>a. stat_of m a = stat_of m' a"
  shows "m = m'"
proof
  fix a
  show "m a = m' a"
  proof (cases "m a")
    case None
    then have "a \<notin> dom m" by (simp add: domIff)
    with assms(1) have "a \<notin> dom m'" by simp
    then have "m' a = None" by (simp add: domIff)
    with None show ?thesis by simp
  next
    case (Some s)
    then have "a \<in> dom m" by (simp add: domIff)
    with assms(1) have "a \<in> dom m'" by simp
    then obtain s' where s': "m' a = Some s'" by (auto simp: domIff)
    from assms(2) [of a] Some s' show ?thesis by (simp add: stat_of_def getdefault_def)
  qed
qed

lemma add_bucket_commute:
  "add_bucket (add_bucket m k i d) k' i' d' = add_bucket (add_bucket m k' i' d') k i d"
  by (rule ext) (simp add: add_bucket_def Let_def getdefault_def)

lemma add_week_commute:
  "add_week (add_week m k i d c) k' i' d' c' = add_week (add_week m k' i' d' c') k i d c"
  by (rule ext) (simp add: add_week_def Let_def getdefault_def insert_commute)

lemma fold_into_commute:
  "fold_into (fold_into m e) e' = fold_into (fold_into m e') e"
proof (rule stats_eqI)
  show "dom (fold_into (fold_into m e) e') = dom (fold_into (fold_into m e') e)"
    by (auto simp: dom_fold_into)
next
  fix a
  show "stat_of (fold_into (fold_into m e) e') a = stat_of (fold_into (fold_into m e') e) a"
  proof (rule author_stats_eqI)
    show "commits (stat_of (fold_into (fold_into m e) e') a)
        = commits (stat_of (fold_into (fold_into m e') e) a)"
      by (auto simp: commits_fold_into)
    show "inserts (stat_of (fold_into (fold_into m e) e') a)
        = inserts (stat_of (fold_into (fold_into m e') e) a)"
      by (simp add: inserts_fold_into)
    show "deletes (stat_of (fold_into (fold_into m e) e') a)
        = deletes (stat_of (fold_into (fold_into m e') e) a)"
      by (simp add: deletes_fold_into)
    show "weekly (stat_of (fold_into (fold_into m e) e') a)
        = weekly (stat_of (fold_into (fold_into m e') e) a)"
      by (cases "cl_date e"; cases "cl_date e'")
         (simp_all add: weekly_fold_into add_week_commute)
    show "by_ext (stat_of (fold_into (fold_into m e) e') a)
        = by_ext (stat_of (fold_into (fold_into m e') e) a)"
      by (auto simp: by_ext_fold_into add_bucket_commute)
    show "by_category (stat_of (fold_into (fold_into m e) e') a)
        = by_category (stat_of (fold_into (fold_into m e') e) a)"
      by (simp add: by_category_fold_into add_bucket_commute)
  qed
qed

lemma foldl_fold_into_mset:
  assumes "mset es = mset es'"
  shows "foldl fold_into m es = foldl fold_into m es'"
proof -
  have "fold (\<lambda>e m. fold_into m e) es = fold (\<lambda>e m. fold_into m e) es'"
    using _ assms by (rule fold_multiset_equiv) (simp add: fun_eq_iff fold_into_commute)
  then show ?thesis by (simp add: foldl_conv_fold)
qed

lemma merge_buckets_commute:
  "merge_buckets (merge_buckets t r) r' = merge_buckets (merge_buckets t r') r"
  by (rule ext) (simp add: merge_buckets_def getdefault_def Let_def split: option.splits)

lemma merge_weeks_commute:
  "merge_weeks (merge_weeks t r) r' = merge_weeks (merge_weeks t r') r"
  by (rule ext)
     (simp add: merge_weeks_def getdefault_def Let_def Un_commute Un_left_commute Un_assoc
           split: option.splits)

lemma merge_author_commute:
  assumes "\<And>t r r'. f (f t r) r' = f (f t r') r"
  shows "merge_author f (merge_author f entry r) r' = merge_author f (merge_author f entry r') r"
  using assms by (simp add: merge_author_def)

lemma merge_repository_commute:
  "merge_repository (merge_repository g r) r' = merge_repository (merge_repository g r') r"
proof -
  note c = merge_author_commute [of merge_weeks, OF merge_weeks_commute]
           merge_author_commute [of merge_buckets, OF merge_buckets_commute]
  have "weekly_stats (merge_repository (merge_repository g r) r')
      = weekly_stats (merge_repository (merge_repository g r') r)"
    by (rule ext) (simp add: merge_repository_def c split: option.splits)
  moreover have "ext_stats (merge_repository (merge_repository g r) r')
      = ext_stats (merge_repository (merge_repository g r') r)"
    by (rule ext) (simp add: merge_repository_def c split: option.splits)
  moreover have "category_stats (merge_repository (merge_repository g r) r')
      = category_stats (merge_repository (merge_repository g r') r)"
    by (rule ext) (simp add: merge_repository_def c split: option.splits)
  ultimately show ?thesis
    by (simp add: merge_repository_def)
qed

lemma analyze_log_commute:
  "analyze_log xd (analyze_log xd g l) l' = analyze_log xd (analyze_log xd g l') l"
  by (simp add: analyze_log_def merge_repository_commute)

lemma analyze_repos_mset:
  assumes "mset logs = mset logs'"
  shows "analyze_repos xd logs = analyze_repos xd logs'"
proof -
  have "fold (\<lambda>l g. analyze_log xd g l) logs = fold (\<lambda>l g. analyze_log xd g l) logs'"
    using _ assms by (rule fold_multiset_equiv) (simp add: fun_eq_iff analyze_log_commute)
  then show ?thesis by (simp add: analyze_repos_def foldl_conv_fold)
qed

section \<open>Sample lines\<close>

lemma app_line_plain: "app_line \<noteq> [] \<and> \<not> startswith app_line ''COMMIT|''"
  by code_simp

lemma commit_alice_fields:
  "py_split CHR ''|'' ''COMMIT|a1|Alice|2025-01-06'' = [''COMMIT'', ''a1'', ''Alice'', ''2025-01-06'']
   \<and> py_strip ''Alice'' = ''Alice'' \<and> \<not> should_exclude_author ''Alice''
   \<and> strptime ''2025-01-06'' = Some 739257"
  by code_simp

lemma commit_alice: "commit_line c ''COMMIT|a1|Alice|2025-01-06'' = alice_cursor"
  by (simp add: commit_line_def commit_alice_fields alice_cursor_def)

lemma commit_bob1_fields:
  "py_split CHR ''|'' ''COMMIT|b1|Bob|2025-01-06'' = [''COMMIT'', ''b1'', ''Bob'', ''2025-01-06'']
   \<and> py_split CHR ''|'' ''COMMIT|b2|Bob|2025-01-13'' = [''COMMIT'', ''b2'', ''Bob'', ''2025-01-13'']
   \<and> py_strip ''Bob'' = ''Bob'' \<and> \<not> should_exclude_author ''Bob''
   \<and> strptime ''2025-01-13'' = Some 739264"
  by code_simp

lemma commit_bob1:
  "commit_line c ''COMMIT|b1|Bob|2025-01-06''
     = \<lparr>current_author = Some ''Bob'', current_commit = Some ''b1'', current_date = Some 739257\<rparr>"
  by (simp add: commit_line_def commit_bob1_fields commit_alice_fields)

lemma commit_bob2:
  "commit_line c ''COMMIT|b2|Bob|2025-01-13''
     = \<lparr>current_author = Some ''Bob'', current_commit = Some ''b2'', current_date = Some 739264\<rparr>"
  by (simp add: commit_line_def commit_bob1_fields)

lemma numstat_x_py:
  "numstat_line False
      \<lparr>current_author = Some ''Bob'', current_commit = Some ''b1'', current_date = Some 739257\<rparr>
      (numstat ''3'' ''0'' ''x.py'')
     = Some \<lparr>cl_author = ''Bob'', cl_commit = Some ''b1'', cl_date = Some 739257,
             cl_ins = 3, cl_dels = 0, cl_path = ''x.py''\<rparr>"
  by code_simp

lemma numstat_y_py:
  "numstat_line False
      \<lparr>current_author = Some ''Bob'', current_commit = Some ''b2'', current_date = Some 739264\<rparr>
      (numstat ''7'' ''1'' ''y.py'')
     = Some \<lparr>cl_author = ''Bob'', cl_commit = Some ''b2'', cl_date = Some 739264,
             cl_ins = 7, cl_dels = 1, cl_path = ''y.py''\<rparr>"
  by code_simp

lemma numstat_plain:
  "numstat i d p \<noteq> [] \<and> (i \<noteq> [] \<and> hd i \<noteq> CHR ''C'' \<longrightarrow> \<not> startswith (numstat i d p) ''COMMIT|'')"
  by (cases i) (simp_all add: numstat_def)

lemma scenario_D_lines:
  "log_lines scenario_D =
     [''COMMIT|b1|Bob|2025-01-06'', numstat ''3'' ''0'' ''x.py'',
      ''COMMIT|b2|Bob|2025-01-13'', numstat ''7'' ''1'' ''y.py'']"
  by code_simp

lemma scenario_D_counted:
  "counted_lines False no_cursor (log_lines scenario_D) = scenario_D_counted_lines"
  by (simp add: scenario_D_lines numstat_plain commit_bob1 commit_bob2 numstat_x_py numstat_y_py
                scenario_D_counted_lines_def)

lemma week_start_sample: "week_start 739257 = 739257 \<and> week_start 739264 = 739264"
  by code_simp

lemma makefile_line_plain: "makefile_line \<noteq> [] \<and> \<not> startswith makefile_line ''COMMIT|''"
  by code_simp

lemma makefile_line_counted: "numstat_line False alice_cursor makefile_line = Some makefile_counted"
  by code_simp

lemma makefile_ext: "ext_of ''Makefile'' = []"
  by code_simp

lemma makefile_log_lines:
  "log_lines makefile_log = [''COMMIT|a1|Alice|2025-01-06'', makefile_line]"
  by code_simp

lemma makefile_log_counted:
  "counted_lines False no_cursor (log_lines makefile_log) = [makefile_counted]"
  by (simp add: makefile_log_lines makefile_line_plain commit_alice makefile_line_counted)

lemma app_line_counted: "numstat_line False alice_cursor app_line = Some app_counted"
  by code_simp

lemma app_ext: "ext_of ''src/app.ts'' = ''.ts''"
  by code_simp

lemma py_ext: "ext_of ''x.py'' = ''.py'' \<and> ext_of ''y.py'' = ''.py''"
  by code_simp

lemma garbled_line_fields:
  "garbled_line \<noteq> [] \<and> \<not> startswith garbled_line ''COMMIT|''
   \<and> py_split (CHR 0x09) garbled_line = [''5x'', ''2'', ''src/app.ts'']
   \<and> py_int ''5x'' = None"
  by code_simp

lemma negative_line_plain: "negative_line \<noteq> [] \<and> \<not> startswith negative_line ''COMMIT|''"
  by code_simp

lemma negative_line_counted:
  "numstat_line False alice_cursor negative_line = Some negative_counted"
  by code_simp

lemma py_int_samples: "py_int ''-5'' = Some (- 5) \<and> py_int ''5'' = Some 5"
  by code_simp

lemma sample_groups:
  "commit_group bob_group \<and> tidy_group bob_group
   \<and> commit_group bob_group2 \<and> tidy_group bob_group2 \<and> commit_group png_group"
  by code_simp

lemma png_lines:
  "log_lines (log_text (png_group @ bob_group))
     = [''COMMIT|a1|Alice|2025-01-06'', numstat ''1'' ''0'' ''a.png '',
        ''COMMIT|b1|Bob|2025-01-06'', numstat ''3'' ''0'' ''x.py'']
   \<and> log_lines (log_text (bob_group @ png_group))
     = [''COMMIT|b1|Bob|2025-01-06'', numstat ''3'' ''0'' ''x.py'',
        ''COMMIT|a1|Alice|2025-01-06'', numstat ''1'' ''0'' ''a.png'']"
  by code_simp

lemma png_numstat:
  "numstat_line False alice_cursor (numstat ''1'' ''0'' ''a.png '') = Some png_counted
   \<and> numstat_line False alice_cursor (numstat ''1'' ''0'' ''a.png'') = None"
  by code_simp

lemma png_counted_lines:
  "counted_lines False no_cursor (log_lines (log_text (png_group @ bob_group)))
     = [png_counted, x_py_counted]
   \<and> counted_lines False no_cursor (log_lines (log_text (bob_group @ png_group)))
     = [x_py_counted]"
  by (simp add: png_lines numstat_plain commit_alice commit_bob1 numstat_x_py png_numstat
                x_py_counted_def)

section \<open>Extension buckets\<close>

text \<open>
  C2 (as amended). A counted line whose path has a non-empty lower-case extension adds its
  insertions and deletions to the extension bucket under that extension and changes no
  other extension bucket; a counted line whose path has no extension changes no extension
  bucket at all. No bucket of a parse result is filed under the empty string.
\<close>

theorem extension_bucket_update:
  "(line \<noteq> [] \<and> \<not> startswith line ''COMMIT|'' \<and> numstat_line xd (cur st) line = Some e
     \<longrightarrow> (let a = cl_author e;
              s = stat_of (stats st) a;
              s' = stat_of (stats (process_line xd st line)) a;
              ext = ext_of (cl_path e)
          in (ext \<noteq> [] \<longrightarrow>
                by_ext s' ext =
                  Some \<lparr>bk_inserts = bk_inserts (getdefault (by_ext s) new_bucket ext) + cl_ins e,
                        bk_deletes = bk_deletes (getdefault (by_ext s) new_bucket ext) + cl_dels e\<rparr>
                \<and> (\<forall>x. x \<noteq> ext \<longrightarrow> by_ext s' x = by_ext s x))
             \<and> (ext = [] \<longrightarrow> by_ext s' = by_ext s)))
   \<and> (\<forall>a s. parse_git_log xd log a = Some s \<longrightarrow> [] \<notin> dom (by_ext s))"
proof (rule conjI)
  show "line \<noteq> [] \<and> \<not> startswith line ''COMMIT|'' \<and> numstat_line xd (cur st) line = Some e
     \<longrightarrow> (let a = cl_author e;
              s = stat_of (stats st) a;
              s' = stat_of (stats (process_line xd st line)) a;
              ext = ext_of (cl_path e)
          in (ext \<noteq> [] \<longrightarrow>
                by_ext s' ext =
                  Some \<lparr>bk_inserts = bk_inserts (getdefault (by_ext s) new_bucket ext) + cl_ins e,
                        bk_deletes = bk_deletes (getdefault (by_ext s) new_bucket ext) + cl_dels e\<rparr>
                \<and> (\<forall>x. x \<noteq> ext \<longrightarrow> by_ext s' x = by_ext s x))
             \<and> (ext = [] \<longrightarrow> by_ext s' = by_ext s))"
  proof
    assume h: "line \<noteq> [] \<and> \<not> startswith line ''COMMIT|'' \<and> numstat_line xd (cur st) line = Some e"
    then have p: "stats (process_line xd st line) = fold_into (stats st) e"
      by (simp add: process_line_def)
    show "let a = cl_author e;
              s = stat_of (stats st) a;
              s' = stat_of (stats (process_line xd st line)) a;
              ext = ext_of (cl_path e)
          in (ext \<noteq> [] \<longrightarrow>
                by_ext s' ext =
                  Some \<lparr>bk_inserts = bk_inserts (getdefault (by_ext s) new_bucket ext) + cl_ins e,
                        bk_deletes = bk_deletes (getdefault (by_ext s) new_bucket ext) + cl_dels e\<rparr>
                \<and> (\<forall>x. x \<noteq> ext \<longrightarrow> by_ext s' x = by_ext s x))
             \<and> (ext = [] \<longrightarrow> by_ext s' = by_ext s)"
      by (simp add: Let_def p by_ext_fold_into ext_of_def add_bucket_same add_bucket_other)
  qed
next
  show "\<forall>a s. parse_git_log xd log a = Some s \<longrightarrow> [] \<notin> dom (by_ext s)"
  proof (intro allI impI)
    fix a s
    assume "parse_git_log xd log a = Some s"
    then have "s = stat_of (foldl fold_into Map.empty (counted_lines xd no_cursor (log_lines log))) a"
      by (simp add: parse_git_log_counted stat_of_Some)
    then have "dom (by_ext s) =
        {x. \<exists>e\<in>set (counted_lines xd no_cursor (log_lines log)).
               cl_author e = a \<and> ext_of (cl_path e) = x \<and> x \<noteq> []}"
      by (simp add: dom_by_ext_foldl stat_of_empty new_author_def)
    then show "[] \<notin> dom (by_ext s)" by simp
  qed
qed

theorem extension_bucket_update_witness:
  "by_ext (stat_of (stats (process_line False alice_start app_line)) ''Alice'') ''.ts''
     = Some \<lparr>bk_inserts = 5, bk_deletes = 2\<rparr>
   \<and> (\<exists>s. parse_git_log False makefile_log ''Alice'' = Some s \<and> [] \<notin> dom (by_ext s))"
proof -
  note t = extension_bucket_update [of app_line False alice_start app_counted makefile_log]
  have p: "app_line \<noteq> [] \<and> \<not> startswith app_line ''COMMIT|''
      \<and> numstat_line False (cur alice_start) app_line = Some app_counted"
    using app_line_plain app_line_counted by (simp add: alice_start_def)
  from t have "app_line \<noteq> [] \<and> \<not> startswith app_line ''COMMIT|''
      \<and> numstat_line False (cur alice_start) app_line = Some app_counted
     \<longrightarrow> (let a = cl_author app_counted;
              s = stat_of (stats alice_start) a;
              s' = stat_of (stats (process_line False alice_start app_line)) a;
              ext = ext_of (cl_path app_counted)
          in (ext \<noteq> [] \<longrightarrow>
                by_ext s' ext =
                  Some \<lparr>bk_inserts = bk_inserts (getdefault (by_ext s) new_bucket ext) + cl_ins app_counted,
                        bk_deletes = bk_deletes (getdefault (by_ext s) new_bucket ext) + cl_dels app_counted\<rparr>
                \<and> (\<forall>x. x \<noteq> ext \<longrightarrow> by_ext s' x = by_ext s x))
             \<and> (ext = [] \<longrightarrow> by_ext s' = by_ext s))"
    by (rule conjunct1)
  with p have "let a = cl_author app_counted;
              s = stat_of (stats alice_start) a;
              s' = stat_of (stats (process_line False alice_start app_line)) a;
              ext = ext_of (cl_path app_counted)
          in (ext \<noteq> [] \<longrightarrow>
                by_ext s' ext =
                  Some \<lparr>bk_inserts = bk_inserts (getdefault (by_ext s) new_bucket ext) + cl_ins app_counted,
                        bk_deletes = bk_deletes (getdefault (by_ext s) new_bucket ext) + cl_dels app_counted\<rparr>
                \<and> (\<forall>x. x \<noteq> ext \<longrightarrow> by_ext s' x = by_ext s x))
             \<and> (ext = [] \<longrightarrow> by_ext s' = by_ext s)"
    by (rule rev_mp)
  then have a: "by_ext (stat_of (stats (process_line False alice_start app_line)) ''Alice'') ''.ts''
     = Some \<lparr>bk_inserts = 5, bk_deletes = 2\<rparr>"
    by (simp add: Let_def app_counted_def app_ext alice_start_def stat_of_empty new_author_def
                  getdefault_def new_bucket_def)
  from t have u: "\<forall>s. parse_git_log False makefile_log ''Alice'' = Some s \<longrightarrow> [] \<notin> dom (by_ext s)"
    by (elim conjE) simp
  have "''Alice'' \<in> dom (parse_git_log False makefile_log)"
    by (simp add: parse_git_log_counted makefile_log_counted dom_fold_into makefile_counted_def)
  then obtain s where s: "parse_git_log False makefile_log ''Alice'' = Some s" by auto
  with u have "[] \<notin> dom (by_ext s)" by simp
  with s have b: "\<exists>s. parse_git_log False makefile_log ''Alice'' = Some s \<and> [] \<notin> dom (by_ext s)"
    by blast
  from a b show ?thesis by (rule conjI)
qed

theorem extensionless_line_counterexample:
  "numstat_line False alice_cursor makefile_line = Some makefile_counted
   \<and> ext_of (cl_path makefile_counted) = []
   \<and> by_ext (stat_of (stats (process_line False alice_start makefile_line)) ''Alice'') [] = None
   \<and> inserts (stat_of (stats (process_line False alice_start makefile_line)) ''Alice'') = 5"
proof -
  have "stats (process_line False alice_start makefile_line) = fold_into Map.empty makefile_counted"
    using makefile_line_plain makefile_line_counted
    by (simp add: process_line_def alice_start_def)
  then show ?thesis
    using makefile_line_counted makefile_ext
    by (simp add: by_ext_fold_into inserts_fold_into makefile_counted_def stat_of_empty
                  new_author_def ext_of_def)
qed

section \<open>The sum invariant\<close>

text \<open>
  C1 (as amended). For every author of a parse result the three dictionaries are finite;
  the category buckets add up to the author's totals, insertions and deletions alike. The
  extension buckets cover only the counted lines whose path has an extension, the weekly
  buckets only those whose commit has a date: either sum equals the total when every
  counted line of the author is covered, and is at most the total when the author's
  counted values are non-negative.
\<close>

theorem bucket_sums_against_totals:
  "\<forall>a s. parse_git_log xd log a = Some s \<longrightarrow>
     (let es = filter (\<lambda>e. cl_author e = a) (counted_lines xd no_cursor (log_lines log))
      in finite (dom (by_category s)) \<and> finite (dom (by_ext s)) \<and> finite (dom (weekly s))
         \<and> bucket_sum bk_inserts (by_category s) = inserts s
         \<and> bucket_sum bk_deletes (by_category s) = deletes s
         \<and> ((\<forall>e\<in>set es. ext_of (cl_path e) \<noteq> [])
              \<longrightarrow> bucket_sum bk_inserts (by_ext s) = inserts s
                  \<and> bucket_sum bk_deletes (by_ext s) = deletes s)
         \<and> ((\<forall>e\<in>set es. cl_date e \<noteq> None)
              \<longrightarrow> bucket_sum wk_inserts (weekly s) = inserts s
                  \<and> bucket_sum wk_deletes (weekly s) = deletes s)
         \<and> ((\<forall>e\<in>set es. 0 \<le> cl_ins e)
              \<longrightarrow> bucket_sum bk_inserts (by_ext s) \<le> inserts s
                  \<and> bucket_sum wk_inserts (weekly s) \<le> inserts s)
         \<and> ((\<forall>e\<in>set es. 0 \<le> cl_dels e)
              \<longrightarrow> bucket_sum bk_deletes (by_ext s) \<le> deletes s
                  \<and> bucket_sum wk_deletes (weekly s) \<le> deletes s))"
proof (intro allI impI)
  fix a s
  let ?all = "counted_lines xd no_cursor (log_lines log)"
  let ?P = "\<lambda>e. cl_author e = a"
  let ?E = "\<lambda>e. ext_of (cl_path e) \<noteq> []"
  let ?D = "\<lambda>e. cl_date e \<noteq> None"
  assume "parse_git_log xd log a = Some s"
  then have s: "s = stat_of (foldl fold_into Map.empty ?all) a"
    by (simp add: parse_git_log_counted stat_of_Some)
  have fin: "finite (dom (by_category s))" "finite (dom (by_ext s))" "finite (dom (weekly s))"
    unfolding s by (simp_all add: finite_doms_foldl stat_of_empty new_author_def)
  have ti: "inserts s = sum_list (map cl_ins (filter ?P ?all))"
    and td: "deletes s = sum_list (map cl_dels (filter ?P ?all))"
    unfolding s by (simp_all add: inserts_foldl deletes_foldl stat_of_empty new_author_def)
  have ci: "bucket_sum bk_inserts (by_category s) = sum_list (map cl_ins (filter ?P ?all))"
    and cd: "bucket_sum bk_deletes (by_category s) = sum_list (map cl_dels (filter ?P ?all))"
    unfolding s
    by (simp_all add: category_sum_foldl stat_of_empty new_author_def bucket_sum_empty)
  have ei: "bucket_sum bk_inserts (by_ext s)
              = sum_list (map cl_ins (filter (\<lambda>e. ?P e \<and> ?E e) ?all))"
    and ed: "bucket_sum bk_deletes (by_ext s)
              = sum_list (map cl_dels (filter (\<lambda>e. ?P e \<and> ?E e) ?all))"
    unfolding s
    by (simp_all add: ext_sum_foldl stat_of_empty new_author_def bucket_sum_empty)
  have wi: "bucket_sum wk_inserts (weekly s)
              = sum_list (map cl_ins (filter (\<lambda>e. ?P e \<and> ?D e) ?all))"
    and wd: "bucket_sum wk_deletes (weekly s)
              = sum_list (map cl_dels (filter (\<lambda>e. ?P e \<and> ?D e) ?all))"
    unfolding s
    by (simp_all add: weekly_sum_foldl stat_of_empty new_author_def bucket_sum_empty)
  have all_ext: "(\<forall>e\<in>set (filter ?P ?all). ?E e)
      \<longrightarrow> bucket_sum bk_inserts (by_ext s) = inserts s
          \<and> bucket_sum bk_deletes (by_ext s) = deletes s"
  proof
    assume "\<forall>e\<in>set (filter ?P ?all). ?E e"
    then have "\<forall>e\<in>set ?all. ?P e \<longrightarrow> ?E e" by simp
    then have "filter (\<lambda>e. ?P e \<and> ?E e) ?all = filter ?P ?all"
      by (rule sum_list_filter_eq)
    then show "bucket_sum bk_inserts (by_ext s) = inserts s
          \<and> bucket_sum bk_deletes (by_ext s) = deletes s"
      unfolding ei ed ti td by simp
  qed
  have all_dated: "(\<forall>e\<in>set (filter ?P ?all). ?D e)
      \<longrightarrow> bucket_sum wk_inserts (weekly s) = inserts s
          \<and> bucket_sum wk_deletes (weekly s) = deletes s"
  proof
    assume "\<forall>e\<in>set (filter ?P ?all). ?D e"
    then have "\<forall>e\<in>set ?all. ?P e \<longrightarrow> ?D e" by simp
    then have "filter (\<lambda>e. ?P e \<and> ?D e) ?all = filter ?P ?all"
      by (rule sum_list_filter_eq)
    then show "bucket_sum wk_inserts (weekly s) = inserts s
          \<and> bucket_sum wk_deletes (weekly s) = deletes s"
      unfolding wi wd ti td by simp
  qed
  have nonneg_ins: "(\<forall>e\<in>set (filter ?P ?all). 0 \<le> cl_ins e)
      \<longrightarrow> bucket_sum bk_inserts (by_ext s) \<le> inserts s
          \<and> bucket_sum wk_inserts (weekly s) \<le> inserts s"
  proof
    assume "\<forall>e\<in>set (filter ?P ?all). 0 \<le> cl_ins e"
    then have n: "\<forall>e\<in>set ?all. ?P e \<longrightarrow> 0 \<le> cl_ins e" by simp
    show "bucket_sum bk_inserts (by_ext s) \<le> inserts s
          \<and> bucket_sum wk_inserts (weekly s) \<le> inserts s"
      unfolding ei wi ti
      using sum_list_filter_le [OF n, of ?E] sum_list_filter_le [OF n, of ?D] by (rule conjI)
  qed
  have nonneg_dels: "(\<forall>e\<in>set (filter ?P ?all). 0 \<le> cl_dels e)
      \<longrightarrow> bucket_sum bk_deletes (by_ext s) \<le> deletes s
          \<and> bucket_sum wk_deletes (weekly s) \<le> deletes s"
  proof
    assume "\<forall>e\<in>set (filter ?P ?all). 0 \<le> cl_dels e"
    then have n: "\<forall>e\<in>set ?all. ?P e \<longrightarrow> 0 \<le> cl_dels e" by simp
    show "bucket_sum bk_deletes (by_ext s) \<le> deletes s
          \<and> bucket_sum wk_deletes (weekly s) \<le> deletes s"
      unfolding ed wd td
      using sum_list_filter_le [OF n, of ?E] sum_list_filter_le [OF n, of ?D] by (rule conjI)
  qed
  have cat: "bucket_sum bk_inserts (by_category s) = inserts s"
    "bucket_sum bk_deletes (by_category s) = deletes s"
    unfolding ci cd ti td by (rule refl)+
  from fin cat all_ext all_dated nonneg_ins nonneg_dels
  show "let es = filter ?P ?all
      in finite (dom (by_category s)) \<and> finite (dom (by_ext s)) \<and> finite (dom (weekly s))
         \<and> bucket_sum bk_inserts (by_category s) = inserts s
         \<and> bucket_sum bk_deletes (by_category s) = deletes s
         \<and> ((\<forall>e\<in>set es. ext_of (cl_path e) \<noteq> [])
              \<longrightarrow> bucket_sum bk_inserts (by_ext s) = inserts s
                  \<and> bucket_sum bk_deletes (by_ext s) = deletes s)
         \<and> ((\<forall>e\<in>set es. cl_date e \<noteq> None)
              \<longrightarrow> bucket_sum wk_inserts (weekly s) = inserts s
                  \<and> bucket_sum wk_deletes (weekly s) = deletes s)
         \<and> ((\<forall>e\<in>set es. 0 \<le> cl_ins e)
              \<longrightarrow> bucket_sum bk_inserts (by_ext s) \<le> inserts s
                  \<and> bucket_sum wk_inserts (weekly s) \<le> inserts s)
         \<and> ((\<forall>e\<in>set es. 0 \<le> cl_dels e)
              \<longrightarrow> bucket_sum bk_deletes (by_ext s) \<le> deletes s
                  \<and> bucket_sum wk_deletes (weekly s) \<le> deletes s)"
    unfolding Let_def by (intro conjI)
qed

theorem bucket_sums_against_totals_witness:
  "\<exists>s. parse_git_log False scenario_D ''Bob'' = Some s
      \<and> bucket_sum bk_inserts (by_category s) = inserts s
      \<and> bucket_sum bk_deletes (by_category s) = deletes s
      \<and> bucket_sum bk_inserts (by_ext s) = inserts s
      \<and> bucket_sum wk_inserts (weekly s) = inserts s"
proof -
  let ?es = "filter (\<lambda>e. cl_author e = ''Bob'') (counted_lines False no_cursor (log_lines scenario_D))"
  have "''Bob'' \<in> dom (parse_git_log False scenario_D)"
    by (simp add: parse_git_log_counted dom_foldl_fold_into scenario_D_counted
                  scenario_D_counted_lines_def dom_fold_into)
  then obtain s where s: "parse_git_log False scenario_D ''Bob'' = Some s" by auto
  have es: "?es = scenario_D_counted_lines"
    by (simp add: scenario_D_counted scenario_D_counted_lines_def)
  have h1: "\<forall>e\<in>set ?es. ext_of (cl_path e) \<noteq> []"
    unfolding es by (simp add: scenario_D_counted_lines_def py_ext)
  have h2: "\<forall>e\<in>set ?es. cl_date e \<noteq> None"
    unfolding es by (simp add: scenario_D_counted_lines_def)
  note t = bucket_sums_against_totals [of False scenario_D, THEN spec, THEN spec, THEN mp, OF s,
                                         unfolded Let_def]
  from t h1 h2 have "bucket_sum bk_inserts (by_category s) = inserts s
      \<and> bucket_sum bk_deletes (by_category s) = deletes s
      \<and> bucket_sum bk_inserts (by_ext s) = inserts s
      \<and> bucket_sum wk_inserts (weekly s) = inserts s"
    by simp
  with s show ?thesis by blast
qed

theorem extension_sum_counterexample:
  "parse_git_log False makefile_log ''Alice'' \<noteq> None
   \<and> inserts (stat_of (parse_git_log False makefile_log) ''Alice'') = 5
   \<and> bucket_sum bk_inserts (by_ext (stat_of (parse_git_log False makefile_log) ''Alice'')) = 0"
proof -
  have p: "parse_git_log False makefile_log = fold_into Map.empty makefile_counted"
    by (simp add: parse_git_log_counted makefile_log_counted)
  have "''Alice'' \<in> dom (parse_git_log False makefile_log)"
    unfolding p by (simp add: dom_fold_into makefile_counted_def)
  then have a: "parse_git_log False makefile_log ''Alice'' \<noteq> None" by auto
  have b: "inserts (stat_of (parse_git_log False makefile_log) ''Alice'') = 5"
    unfolding p by (simp add: inserts_fold_into makefile_counted_def stat_of_empty new_author_def)
  have "by_ext (stat_of (parse_git_log False makefile_log) ''Alice'') = Map.empty"
    unfolding p using makefile_ext
    by (simp add: by_ext_fold_into makefile_counted_def stat_of_empty new_author_def ext_of_def)
  then have c: "bucket_sum bk_inserts (by_ext (stat_of (parse_git_log False makefile_log) ''Alice'')) = 0"
    by (simp add: bucket_sum_empty)
  from a b c show ?thesis by (intro conjI)
qed

section \<open>Excluded files\<close>

text \<open>
  C3 (as amended). \<open>should_exclude_file\<close> holds exactly when documentation is excluded and
  the lower-cased path has a documentation extension, or an exclusion pattern matches the
  whole path, its basename or what follows one of its slashes, or, for a directory-style
  pattern, the pattern stripped of all its trailing slashes and stars (\<^verbatim>\<open>temp\<close> for
  \<^verbatim>\<open>temp/*\<close>) occurs anywhere in the lower-cased path.
\<close>

theorem should_exclude_file_iff:
  "should_exclude_file exclude_docs path \<longleftrightarrow>
     (exclude_docs \<and> ext_of path \<in> set DOC_EXTENSIONS)
     \<or> (\<exists>pattern\<in>set EXCLUDE_PATTERNS.
           fnmatch path pattern \<or> fnmatch (basename path) pattern
           \<or> (\<exists>a b. path = a @ CHR ''/'' # b \<and> fnmatch b pattern))
     \<or> (\<exists>pattern\<in>set EXCLUDE_PATTERNS.
           dir_style pattern
           \<and> (\<exists>a b. py_lower path = a @ dir_pattern pattern @ b))"
proof -
  have "list_ex (pattern_excludes path) EXCLUDE_PATTERNS \<longleftrightarrow>
          (\<exists>pattern\<in>set EXCLUDE_PATTERNS.
             fnmatch path pattern \<or> fnmatch (basename path) pattern
             \<or> (\<exists>a b. path = a @ CHR ''/'' # b \<and> fnmatch b pattern)
             \<or> (dir_style pattern \<and> contains (py_lower path) (dir_pattern pattern)))"
    unfolding list_ex_iff using pattern_excludes_iff [of _ path] by blast
  then show ?thesis
    unfolding should_exclude_file_def ext_of_def contains_iff by blast
qed

lemma template_dir:
  "''temp/*'' \<in> set EXCLUDE_PATTERNS \<and> dir_style ''temp/*'' \<and> dir_pattern ''temp/*'' = ''temp''
   \<and> py_lower ''template.html'' = ''template.html''"
  by code_simp

theorem should_exclude_file_iff_witness: "should_exclude_file False ''template.html''"
proof -
  have "py_lower ''template.html'' = [] @ dir_pattern ''temp/*'' @ ''late.html''"
    using template_dir by simp
  then have "\<exists>a b. py_lower ''template.html'' = a @ dir_pattern ''temp/*'' @ b"
    by blast
  with template_dir
  have "\<exists>pattern\<in>set EXCLUDE_PATTERNS.
           dir_style pattern
           \<and> (\<exists>a b. py_lower ''template.html'' = a @ dir_pattern pattern @ b)"
    by blast
  then show ?thesis
    unfolding should_exclude_file_iff [of False "''template.html''"] by (intro disjI2)
qed

theorem directory_substring_counterexample:
  "should_exclude_file False ''template.html'' \<and> \<not> spec_should_exclude_file False ''template.html''"
  by code_simp

section \<open>Totals during a scan\<close>

lemma digit_val_nonneg: "is_digit c \<Longrightarrow> 0 \<le> digit_val c"
  by (simp add: is_digit_def digit_val_def)

lemma int_digits_nonneg: "0 \<le> acc \<Longrightarrow> int_digits acc cs = Some n \<Longrightarrow> 0 \<le> n"
proof (induction acc cs rule: int_digits.induct)
  case (1 acc)
  then show ?case by simp
next
  case (2 acc c)
  then show ?case by (auto split: if_splits dest: digit_val_nonneg)
next
  case (3 acc c d cs)
  show ?case
  proof (cases "is_digit c")
    case True
    with 3 digit_val_nonneg [of c] show ?thesis by simp
  next
    case False
    with 3 digit_val_nonneg [of d] show ?thesis by (simp split: if_splits)
  qed
qed

lemma int_unsigned_nonneg: "int_unsigned body = Some n \<Longrightarrow> 0 \<le> n"
  by (auto simp: int_unsigned_def split: list.splits if_splits
           dest: int_digits_nonneg [rotated] digit_val_nonneg)

lemma py_int_unsigned_nonneg:
  assumes "py_int s = Some n" and "CHR ''-'' \<notin> set s"
  shows "0 \<le> n"
proof -
  let ?t = "rev (dropWhile int_space (rev (dropWhile int_space s)))"
  have "set ?t \<subseteq> set s"
    using set_dropWhileD [of _ int_space "rev (dropWhile int_space s)"]
          set_dropWhileD [of _ int_space s]
    by auto
  with assms(2) have "CHR ''-'' \<notin> set ?t" by blast
  with assms(1) show ?thesis
    by (auto simp: py_int_def Let_def split: list.splits if_splits dest: int_unsigned_nonneg)
qed

lemma sum_list_filter_nonneg:
  "\<forall>x\<in>set xs. (0::int) \<le> f x \<Longrightarrow> 0 \<le> sum_list (map f (filter P xs))"
  by (induction xs) auto

text \<open>
  C4 (as amended). A numstat line is counted only when \<^verbatim>\<open>int\<close> accepts both count fields,
  and with the values \<^verbatim>\<open>int\<close> gives them; a line with a count field that \<^verbatim>\<open>int\<close>
  rejects leaves the parser state as it was. While the counted values are non-negative no
  author's total insertions or deletions decrease, from whatever state the scan goes on;
  a field that \<^verbatim>\<open>int\<close> accepts and that contains no minus sign has a non-negative value.
\<close>

theorem totals_monotone:
  "(numstat_line xd c line = Some e
     \<longrightarrow> (\<exists>i d. py_split (CHR 0x09) line = [i, d, cl_path e]
                \<and> py_int i = Some (cl_ins e) \<and> py_int d = Some (cl_dels e)))
   \<and> (line \<noteq> [] \<and> \<not> startswith line ''COMMIT|'' \<and> py_split (CHR 0x09) line = [i, d, p]
        \<and> (py_int i = None \<or> py_int d = None)
       \<longrightarrow> process_line xd st line = st)
   \<and> ((\<forall>e\<in>set (counted_lines xd (cur st) ls). 0 \<le> cl_ins e \<and> 0 \<le> cl_dels e)
       \<longrightarrow> inserts (stat_of (stats st) a)
             \<le> inserts (stat_of (stats (foldl (process_line xd) st ls)) a)
           \<and> deletes (stat_of (stats st) a)
             \<le> deletes (stat_of (stats (foldl (process_line xd) st ls)) a))
   \<and> (py_int s = Some n \<and> CHR ''-'' \<notin> set s \<longrightarrow> 0 \<le> n)"
proof (intro conjI impI)
  assume "numstat_line xd c line = Some e"
  from numstat_line_SomeD(5) [OF this]
  show "\<exists>i d. py_split (CHR 0x09) line = [i, d, cl_path e]
                \<and> py_int i = Some (cl_ins e) \<and> py_int d = Some (cl_dels e)"
    by blast
next
  assume h: "line \<noteq> [] \<and> \<not> startswith line ''COMMIT|'' \<and> py_split (CHR 0x09) line = [i, d, p]
        \<and> (py_int i = None \<or> py_int d = None)"
  then have "numstat_line xd (cur st) line = None"
    by (intro numstat_line_skip) blast
  with h show "process_line xd st line = st"
    by (simp add: process_line_def)
next
  assume h: "\<forall>e\<in>set (counted_lines xd (cur st) ls). 0 \<le> cl_ins e \<and> 0 \<le> cl_dels e"
  then have "0 \<le> sum_list (map cl_ins (filter (\<lambda>e. cl_author e = a) (counted_lines xd (cur st) ls)))"
    by (intro sum_list_filter_nonneg) simp
  then show "inserts (stat_of (stats st) a)
             \<le> inserts (stat_of (stats (foldl (process_line xd) st ls)) a)"
    by (simp add: scan_stats inserts_foldl)
  from h have "0 \<le> sum_list (map cl_dels (filter (\<lambda>e. cl_author e = a) (counted_lines xd (cur st) ls)))"
    by (intro sum_list_filter_nonneg) simp
  then show "deletes (stat_of (stats st) a)
             \<le> deletes (stat_of (stats (foldl (process_line xd) st ls)) a)"
    by (simp add: scan_stats deletes_foldl)
next
  assume "py_int s = Some n \<and> CHR ''-'' \<notin> set s"
  then show "0 \<le> n" by (blast intro: py_int_unsigned_nonneg)
qed


theorem totals_monotone_witness:
  "(\<exists>i d. py_split (CHR 0x09) app_line = [i, d, ''src/app.ts'']
        \<and> py_int i = Some 5 \<and> py_int d = Some 2)
   \<and> process_line False alice_start garbled_line = alice_start
   \<and> inserts (stat_of (stats alice_start) ''Alice'')
        \<le> inserts (stat_of (stats (foldl (process_line False) alice_start [app_line])) ''Alice'')
   \<and> (0::int) \<le> 5"
proof -
  note t = totals_monotone [where xd = False and c = alice_cursor and line = app_line
                               and e = app_counted and st = alice_start and ls = "[app_line]"
                               and a = "''Alice''" and s = "''5''" and n = 5]
  note u = totals_monotone [where xd = False and line = garbled_line and i = "''5x''"
                               and d = "''2''" and p = "''src/app.ts''" and st = alice_start]
  from t [THEN conjunct1, THEN mp, OF app_line_counted]
  have a: "\<exists>i d. py_split (CHR 0x09) app_line = [i, d, ''src/app.ts'']
        \<and> py_int i = Some 5 \<and> py_int d = Some 2"
    by (simp add: app_counted_def)
  have g: "garbled_line \<noteq> [] \<and> \<not> startswith garbled_line ''COMMIT|''
        \<and> py_split (CHR 0x09) garbled_line = [''5x'', ''2'', ''src/app.ts'']
        \<and> (py_int ''5x'' = None \<or> py_int ''2'' = None)"
    using garbled_line_fields by simp
  have b: "process_line False alice_start garbled_line = alice_start"
    by (rule u [THEN conjunct2, THEN conjunct1, THEN mp, OF g])
  have "counted_lines False (cur alice_start) [app_line] = [app_counted]"
    using app_line_plain app_line_counted by (simp add: alice_start_def)
  then have n: "\<forall>e\<in>set (counted_lines False (cur alice_start) [app_line]).
               0 \<le> cl_ins e \<and> 0 \<le> cl_dels e"
    by (simp add: app_counted_def)
  have c: "inserts (stat_of (stats alice_start) ''Alice'')
        \<le> inserts (stat_of (stats (foldl (process_line False) alice_start [app_line])) ''Alice'')"
    by (rule t [THEN conjunct2, THEN conjunct2, THEN conjunct1, THEN mp, OF n, THEN conjunct1])
  have f: "py_int ''5'' = Some 5 \<and> CHR ''-'' \<notin> set ''5''"
    using py_int_samples by simp
  have d: "(0::int) \<le> 5"
    by (rule t [THEN conjunct2, THEN conjunct2, THEN conjunct2, THEN mp, OF f])
  from a b c d show ?thesis by (intro conjI)
qed

theorem negative_count_counterexample:
  "py_int ''-5'' = Some (- 5)
   \<and> numstat_line False alice_cursor negative_line = Some negative_counted
   \<and> inserts (stat_of (stats (process_line False alice_start negative_line)) ''Alice'')
       < inserts (stat_of (stats alice_start) ''Alice'')"
proof -
  have "stats (process_line False alice_start negative_line) = fold_into Map.empty negative_counted"
    using negative_line_plain negative_line_counted
    by (simp add: process_line_def alice_start_def)
  then have "inserts (stat_of (stats (process_line False alice_start negative_line)) ''Alice'')
       < inserts (stat_of (stats alice_start) ''Alice'')"
    by (simp add: inserts_fold_into negative_counted_def alice_start_def stat_of_empty
                  new_author_def)
  with py_int_samples negative_line_counted show ?thesis by simp
qed

section \<open>Reordering commits and repositories\<close>

lemma parse_git_log_groups:
  assumes "\<forall>g\<in>set gs. commit_group g" and "mset gs' = mset gs"
    and "log_lines log = concat gs" and "log_lines log' = concat gs'"
  shows "parse_git_log xd log' = parse_git_log xd log"
proof -
  from assms(1,2) have g': "\<forall>g\<in>set gs'. commit_group g"
    by (metis set_mset_mset)
  have "mset (concat (map (counted_lines xd no_cursor) gs'))
      = mset (concat (map (counted_lines xd no_cursor) gs))"
    using assms(2) by (rule mset_concat_map)
  then have "mset (counted_lines xd no_cursor (log_lines log'))
      = mset (counted_lines xd no_cursor (log_lines log))"
    by (simp add: assms(3,4) counted_lines_groups [OF assms(1)] counted_lines_groups [OF g'])
  then show ?thesis
    unfolding parse_git_log_counted by (rule foldl_fold_into_mset)
qed

text \<open>
  C5 (as amended). Two logs whose lines, as \<open>log_lines\<close> cuts them, are the same commit
  groups in another order parse to the same mapping; a commit group is a commit line with
  at least four fields followed by the lines up to the next such line. This holds for the
  texts that write the groups line by line whenever no group ends in a line that is empty
  or has trailing whitespace. The aggregates of \<open>analyze_repos\<close> do not depend on the
  order of the repositories.
\<close>

theorem commit_order_irrelevant:
  "((\<forall>g\<in>set gs. commit_group g) \<and> mset gs' = mset gs
      \<and> log_lines log = concat gs \<and> log_lines log' = concat gs'
     \<longrightarrow> parse_git_log xd log' = parse_git_log xd log)
   \<and> ((\<forall>g\<in>set gs. commit_group g \<and> tidy_group g) \<and> mset gs' = mset gs
       \<longrightarrow> parse_git_log xd (log_text (concat gs')) = parse_git_log xd (log_text (concat gs)))
   \<and> (mset logs' = mset logs \<longrightarrow> analyze_repos xd logs' = analyze_repos xd logs)"
proof (intro conjI impI)
  assume "(\<forall>g\<in>set gs. commit_group g) \<and> mset gs' = mset gs
      \<and> log_lines log = concat gs \<and> log_lines log' = concat gs'"
  then show "parse_git_log xd log' = parse_git_log xd log"
    by (intro parse_git_log_groups [of gs gs']) simp_all
next
  assume h: "(\<forall>g\<in>set gs. commit_group g \<and> tidy_group g) \<and> mset gs' = mset gs"
  then have g': "\<forall>g\<in>set gs'. commit_group g \<and> tidy_group g"
    by (metis set_mset_mset)
  show "parse_git_log xd (log_text (concat gs')) = parse_git_log xd (log_text (concat gs))"
  proof (cases "gs = []")
    case True
    with h have "gs' = []" by simp
    with True show ?thesis by simp
  next
    case False
    with h have "gs' \<noteq> []" by auto
    then have "log_lines (log_text (concat gs')) = concat gs'"
      using g' by (rule log_lines_groups)
    moreover from False h have "log_lines (log_text (concat gs)) = concat gs"
      by (intro log_lines_groups) simp_all
    ultimately show ?thesis
      using h by (intro parse_git_log_groups [of gs gs']) simp_all
  qed
next
  assume "mset logs' = mset logs"
  then show "analyze_repos xd logs' = analyze_repos xd logs"
    by (rule analyze_repos_mset)
qed

theorem commit_order_irrelevant_witness:
  "parse_git_log False (log_text (bob_group2 @ bob_group))
     = parse_git_log False (log_text (bob_group @ bob_group2))
   \<and> analyze_repos False [makefile_log, scenario_D] = analyze_repos False [scenario_D, makefile_log]"
proof -
  let ?gs = "[bob_group, bob_group2]"
  let ?gs' = "[bob_group2, bob_group]"
  let ?logs = "[scenario_D, makefile_log]"
  let ?logs' = "[makefile_log, scenario_D]"
  note t = commit_order_irrelevant [of ?gs ?gs' "log_text (concat ?gs)" "log_text (concat ?gs')"
                                       False ?logs' ?logs]
  have groups: "\<forall>g\<in>set ?gs. commit_group g \<and> tidy_group g"
    using sample_groups by simp
  have perm: "mset ?gs' = mset ?gs" by simp
  have lines: "log_lines (log_text (concat ?gs)) = concat ?gs"
    "log_lines (log_text (concat ?gs')) = concat ?gs'"
    using sample_groups by (intro log_lines_groups; simp)+
  have h1: "(\<forall>g\<in>set ?gs. commit_group g) \<and> mset ?gs' = mset ?gs
      \<and> log_lines (log_text (concat ?gs)) = concat ?gs
      \<and> log_lines (log_text (concat ?gs')) = concat ?gs'"
    using groups perm lines by simp
  have h2: "(\<forall>g\<in>set ?gs. commit_group g \<and> tidy_group g) \<and> mset ?gs' = mset ?gs"
    using groups perm by simp
  have h3: "mset ?logs' = mset ?logs" by simp
  from t [THEN conjunct1, THEN mp, OF h1]
  have a: "parse_git_log False (log_text (concat ?gs')) = parse_git_log False (log_text (concat ?gs))" .
  from t [THEN conjunct2, THEN conjunct1, THEN mp, OF h2]
  have b: "parse_git_log False (log_text (concat ?gs')) = parse_git_log False (log_text (concat ?gs))" .
  from t [THEN conjunct2, THEN conjunct2, THEN mp, OF h3]
  have c: "analyze_repos False ?logs' = analyze_repos False ?logs" .
  from a b c show ?thesis by simp
qed

theorem trailing_blank_counterexample:
  "commit_group png_group \<and> commit_group bob_group
   \<and> parse_git_log False (log_text (png_group @ bob_group)) ''Alice'' \<noteq> None
   \<and> parse_git_log False (log_text (bob_group @ png_group)) ''Alice'' = None"
proof -
  have "''Alice'' \<in> dom (parse_git_log False (log_text (png_group @ bob_group)))"
    by (simp add: parse_git_log_counted png_counted_lines dom_fold_into png_counted_def)
  then have a: "parse_git_log False (log_text (png_group @ bob_group)) ''Alice'' \<noteq> None"
    by (simp add: domIff)
  have "''Alice'' \<notin> dom (parse_git_log False (log_text (bob_group @ png_group)))"
    by (simp add: parse_git_log_counted png_counted_lines dom_fold_into x_py_counted_def)
  then have b: "parse_git_log False (log_text (bob_group @ png_group)) ''Alice'' = None"
    by (simp add: domIff)
  from sample_groups a b show ?thesis by simp
qed

section \<open>Suppressed authors\<close>

lemma counted_lines_all_excluded:
  assumes "\<forall>l\<in>set ls. startswith l ''COMMIT|'' \<and> 4 \<le> length (py_split CHR ''|'' l)
             \<longrightarrow> should_exclude_author (py_strip (py_split CHR ''|'' l ! 2))"
    and "current_author c = None"
  shows "counted_lines xd c ls = []"
  using assms
proof (induction ls arbitrary: c)
  case Nil
  then show ?case by simp
next
  case (Cons l ls)
  have rest: "\<And>c'. current_author c' = None \<Longrightarrow> counted_lines xd c' ls = []"
    using Cons.IH Cons.prems(1) by simp
  show ?case
  proof (cases "startswith l ''COMMIT|''")
    case True
    have "current_author (commit_line c l) = None"
    proof (cases "4 \<le> length (py_split CHR ''|'' l)")
      case True
      with Cons.prems(1) \<open>startswith l ''COMMIT|''\<close> show ?thesis
        by (simp add: commit_line_excluded)
    next
      case False
      then show ?thesis using Cons.prems(2) by (simp add: commit_line_short)
    qed
    moreover from True have "l \<noteq> []" by auto
    ultimately show ?thesis using True rest by simp
  next
    case False
    have "numstat_line xd c l = None"
      using Cons.prems(2) by (simp add: numstat_line_def split: list.splits)
    with False rest Cons.prems(2) show ?thesis by simp
  qed
qed

text \<open>
  C6. A commit line (at least four fields) whose trimmed author name contains an entry
  of \<open>EXCLUDE_AUTHORS\<close>, case-insensitively, unsets the current author: none of the lines
  up to the next commit line is counted and the statistics stay as they were. A log
  all of whose commit lines name such authors parses to the empty mapping.
\<close>

theorem excluded_author_suppressed:
  "(startswith line ''COMMIT|'' \<and> 4 \<le> length (py_split CHR ''|'' line)
      \<and> should_exclude_author (py_strip (py_split CHR ''|'' line ! 2))
      \<and> (\<forall>l\<in>set ls. \<not> startswith l ''COMMIT|'')
     \<longrightarrow> counted_lines xd (cur st) (line # ls) = []
         \<and> stats (foldl (process_line xd) st (line # ls)) = stats st)
   \<and> ((\<forall>l\<in>set (log_lines log).
          startswith l ''COMMIT|'' \<and> 4 \<le> length (py_split CHR ''|'' l)
          \<longrightarrow> should_exclude_author (py_strip (py_split CHR ''|'' l ! 2)))
       \<longrightarrow> parse_git_log xd log = Map.empty)"
proof (intro conjI impI)
  assume h: "startswith line ''COMMIT|'' \<and> 4 \<le> length (py_split CHR ''|'' line)
      \<and> should_exclude_author (py_strip (py_split CHR ''|'' line ! 2))
      \<and> (\<forall>l\<in>set ls. \<not> startswith l ''COMMIT|'')"
  then have ne: "line \<noteq> []" by auto
  from h have "current_author (commit_line (cur st) line) = None"
    by (simp add: commit_line_excluded)
  with h have "counted_lines xd (commit_line (cur st) line) ls = []"
    by (simp add: counted_lines_unset)
  with h ne show c: "counted_lines xd (cur st) (line # ls) = []" by simp
  show "stats (foldl (process_line xd) st (line # ls)) = stats st"
    unfolding scan_stats c by simp
next
  assume "\<forall>l\<in>set (log_lines log).
          startswith l ''COMMIT|'' \<and> 4 \<le> length (py_split CHR ''|'' l)
          \<longrightarrow> should_exclude_author (py_strip (py_split CHR ''|'' l ! 2))"
  then have "counted_lines xd no_cursor (log_lines log) = []"
    by (rule counted_lines_all_excluded) (simp add: no_cursor_def)
  then show "parse_git_log xd log = Map.empty"
    by (simp add: parse_git_log_counted)
qed

lemma scenario_B_lines:
  "log_lines scenario_B = [''COMMIT|a1|dependabot[bot]|2025-01-06'', numstat ''5'' ''2'' ''src/app.ts'']"
  by code_simp

lemma dependabot_line:
  "startswith ''COMMIT|a1|dependabot[bot]|2025-01-06'' ''COMMIT|''
   \<and> 4 \<le> length (py_split CHR ''|'' ''COMMIT|a1|dependabot[bot]|2025-01-06'')
   \<and> should_exclude_author (py_strip (py_split CHR ''|'' ''COMMIT|a1|dependabot[bot]|2025-01-06'' ! 2))
   \<and> \<not> startswith (numstat ''5'' ''2'' ''src/app.ts'') ''COMMIT|''"
  by code_simp

theorem excluded_author_suppressed_witness:
  "counted_lines False alice_cursor
      [''COMMIT|a1|dependabot[bot]|2025-01-06'', numstat ''5'' ''2'' ''src/app.ts''] = []
   \<and> parse_git_log False scenario_B = Map.empty"
proof -
  let ?line = "''COMMIT|a1|dependabot[bot]|2025-01-06''"
  let ?ls = "[numstat ''5'' ''2'' ''src/app.ts'']"
  let ?st = "\<lparr>cur = alice_cursor, stats = Map.empty\<rparr>"
  note t = excluded_author_suppressed [of ?line ?ls False ?st scenario_B]
  have p1: "startswith ?line ''COMMIT|'' \<and> 4 \<le> length (py_split CHR ''|'' ?line)
      \<and> should_exclude_author (py_strip (py_split CHR ''|'' ?line ! 2))
      \<and> (\<forall>l\<in>set ?ls. \<not> startswith l ''COMMIT|'')"
    using dependabot_line by simp
  have p2: "\<forall>l\<in>set (log_lines scenario_B).
          startswith l ''COMMIT|'' \<and> 4 \<le> length (py_split CHR ''|'' l)
          \<longrightarrow> should_exclude_author (py_strip (py_split CHR ''|'' l ! 2))"
    using dependabot_line by (simp add: scenario_B_lines)
  from t p1 have "counted_lines False (cur ?st) (?line # ?ls) = []" by blast
  moreover from t p2 have "parse_git_log False scenario_B = Map.empty" by blast
  ultimately show ?thesis by simp
qed

section \<open>Weekly buckets\<close>

text \<open>
  C7. A counted line of a commit with a date is filed under the week that starts at the
  commit date minus its weekday (Monday is 0): that key is a Monday, on or before the
  commit date and less than seven days before it. The bucket of that week grows by the
  line's insertions and deletions and receives the commit hash; no other week changes.
  The date of a commit is the value of \<open>strptime\<close> on the fourth field of its line.
\<close>

theorem weekly_bucket_is_monday:
  "(line \<noteq> [] \<and> \<not> startswith line ''COMMIT|''
      \<and> numstat_line xd (cur st) line = Some e \<and> current_date (cur st) = Some d
     \<longrightarrow> (let a = cl_author e;
              s = stat_of (stats st) a;
              s' = stat_of (stats (process_line xd st line)) a;
              w = week_start d
          in weekday w = 0 \<and> w \<le> d \<and> d < w + 7
             \<and> weekly s' w =
                 Some \<lparr>wk_inserts = wk_inserts (week_of s w) + cl_ins e,
                       wk_deletes = wk_deletes (week_of s w) + cl_dels e,
                       wk_commits = insert (current_commit (cur st)) (wk_commits (week_of s w))\<rparr>
             \<and> (\<forall>w'. w' \<noteq> w \<longrightarrow> weekly s' w' = weekly s w')))
   \<and> (startswith cline ''COMMIT|'' \<and> 4 \<le> length (py_split CHR ''|'' cline)
        \<and> \<not> should_exclude_author (py_strip (py_split CHR ''|'' cline ! 2))
       \<longrightarrow> current_date (cur (process_line xd st cline)) = strptime (py_split CHR ''|'' cline ! 3))"
proof (intro conjI impI)
  assume h: "line \<noteq> [] \<and> \<not> startswith line ''COMMIT|''
      \<and> numstat_line xd (cur st) line = Some e \<and> current_date (cur st) = Some d"
  then have p: "stats (process_line xd st line) = fold_into (stats st) e"
    by (simp add: process_line_def)
  from h have d: "cl_date e = Some d" and c: "cl_commit e = current_commit (cur st)"
    using numstat_line_SomeD(3,4) [of xd "cur st" line e] by simp_all
  show "let a = cl_author e;
              s = stat_of (stats st) a;
              s' = stat_of (stats (process_line xd st line)) a;
              w = week_start d
          in weekday w = 0 \<and> w \<le> d \<and> d < w + 7
             \<and> weekly s' w =
                 Some \<lparr>wk_inserts = wk_inserts (week_of s w) + cl_ins e,
                       wk_deletes = wk_deletes (week_of s w) + cl_dels e,
                       wk_commits = insert (current_commit (cur st)) (wk_commits (week_of s w))\<rparr>
             \<and> (\<forall>w'. w' \<noteq> w \<longrightarrow> weekly s' w' = weekly s w')"
    using week_start_le [of d]
    by (simp add: Let_def p weekly_fold_into d c weekday_week_start add_week_same
                  add_week_other week_of_def)
next
  assume h: "startswith cline ''COMMIT|'' \<and> 4 \<le> length (py_split CHR ''|'' cline)
        \<and> \<not> should_exclude_author (py_strip (py_split CHR ''|'' cline ! 2))"
  then have "cline \<noteq> []" by (auto dest: startswith_nonempty)
  with h show "current_date (cur (process_line xd st cline)) = strptime (py_split CHR ''|'' cline ! 3)"
    by (simp add: process_line_def commit_line_accepted)
qed

lemma alice_commit_line:
  "startswith ''COMMIT|a1|Alice|2025-01-06'' ''COMMIT|''
   \<and> 4 \<le> length (py_split CHR ''|'' ''COMMIT|a1|Alice|2025-01-06'')
   \<and> \<not> should_exclude_author (py_strip (py_split CHR ''|'' ''COMMIT|a1|Alice|2025-01-06'' ! 2))
   \<and> strptime (py_split CHR ''|'' ''COMMIT|a1|Alice|2025-01-06'' ! 3) = Some 739257"
  by code_simp

theorem weekly_bucket_is_monday_witness:
  "weekly (stat_of (stats (process_line False \<lparr>cur = alice_cursor, stats = Map.empty\<rparr> app_line))
             ''Alice'') 739257
     = Some \<lparr>wk_inserts = 5, wk_deletes = 2, wk_commits = {Some ''a1''}\<rparr>
   \<and> current_date (cur (process_line False initial_state ''COMMIT|a1|Alice|2025-01-06''))
       = Some 739257"
proof -
  let ?st = "\<lparr>cur = alice_cursor, stats = Map.empty\<rparr>"
  have p: "app_line \<noteq> [] \<and> \<not> startswith app_line ''COMMIT|''
      \<and> numstat_line False (cur ?st) app_line = Some app_counted
      \<and> current_date (cur ?st) = Some 739257"
    using app_line_counted app_line_plain by (simp add: alice_cursor_def)
  from weekly_bucket_is_monday [of app_line False ?st app_counted 739257] p
  have "let a = cl_author app_counted;
              s = stat_of (stats ?st) a;
              s' = stat_of (stats (process_line False ?st app_line)) a;
              w = week_start 739257
          in weekday w = 0 \<and> w \<le> 739257 \<and> 739257 < w + 7
             \<and> weekly s' w =
                 Some \<lparr>wk_inserts = wk_inserts (week_of s w) + cl_ins app_counted,
                       wk_deletes = wk_deletes (week_of s w) + cl_dels app_counted,
                       wk_commits = insert (current_commit (cur ?st)) (wk_commits (week_of s w))\<rparr>
             \<and> (\<forall>w'. w' \<noteq> w \<longrightarrow> weekly s' w' = weekly s w')"
    by blast
  then have a: "weekly (stat_of (stats (process_line False ?st app_line)) ''Alice'') 739257
     = Some \<lparr>wk_inserts = 5, wk_deletes = 2, wk_commits = {Some ''a1''}\<rparr>"
    by (simp add: Let_def week_start_sample app_counted_def stat_of_empty week_of_def
                  getdefault_def new_author_def new_week_def alice_cursor_def)
  from weekly_bucket_is_monday [of _ False initial_state _ _ "''COMMIT|a1|Alice|2025-01-06''"]
       alice_commit_line
  have b: "current_date (cur (process_line False initial_state ''COMMIT|a1|Alice|2025-01-06''))
       = Some 739257"
    by simp
  from a b show ?thesis by blast
qed

section \<open>Commits without a date\<close>





section \<open>Skipped lines\<close>

text \<open>
  C9. A numstat line is skipped when it has not exactly three tab-separated fields, when no
  author is current (unset, suppressed or empty), when a count field is \<^verbatim>\<open>-\<close>, when the
  path is excluded, or when a count field is not accepted by \<^verbatim>\<open>int\<close>; a skipped line
  leaves the whole parser state as it was. Hence the authors of the result are exactly the
  authors of counted lines, and an author's commit set holds exactly the commits of that
  author's counted lines.
\<close>

theorem skipped_line_changes_nothing:
  "(line \<noteq> [] \<and> \<not> startswith line ''COMMIT|''
      \<and> (length (py_split (CHR 0x09) line) \<noteq> 3
          \<or> current_author (cur st) = None \<or> current_author (cur st) = Some []
          \<or> (\<exists>i d p. py_split (CHR 0x09) line = [i, d, p]
                \<and> (i = ''-'' \<or> d = ''-'' \<or> should_exclude_file xd p
                    \<or> py_int i = None \<or> py_int d = None)))
     \<longrightarrow> process_line xd st line = st)
   \<and> dom (parse_git_log xd log) = cl_author ` set (counted_lines xd no_cursor (log_lines log))
   \<and> (\<forall>a s. parse_git_log xd log a = Some s
         \<longrightarrow> commits s
             = cl_commit ` {e \<in> set (counted_lines xd no_cursor (log_lines log)). cl_author e = a})"
proof (intro conjI impI allI)
  assume h: "line \<noteq> [] \<and> \<not> startswith line ''COMMIT|''
      \<and> (length (py_split (CHR 0x09) line) \<noteq> 3
          \<or> current_author (cur st) = None \<or> current_author (cur st) = Some []
          \<or> (\<exists>i d p. py_split (CHR 0x09) line = [i, d, p]
                \<and> (i = ''-'' \<or> d = ''-'' \<or> should_exclude_file xd p
                    \<or> py_int i = None \<or> py_int d = None)))"
  then have "numstat_line xd (cur st) line = None"
    by (intro numstat_line_skip) blast
  with h show "process_line xd st line = st"
    by (simp add: process_line_def)
next
  show "dom (parse_git_log xd log) = cl_author ` set (counted_lines xd no_cursor (log_lines log))"
    by (simp add: parse_git_log_counted dom_foldl_fold_into)
next
  fix a s
  assume "parse_git_log xd log a = Some s"
  then have "s = stat_of (foldl fold_into Map.empty (counted_lines xd no_cursor (log_lines log))) a"
    by (simp add: parse_git_log_counted stat_of_Some)
  then have "commits s
      = commits (stat_of (foldl fold_into Map.empty (counted_lines xd no_cursor (log_lines log))) a)"
    by simp
  also have "\<dots> = cl_commit ` {e \<in> set (counted_lines xd no_cursor (log_lines log)). cl_author e = a}"
    by (simp add: commits_foldl stat_of_empty new_author_def)
  finally show "commits s
      = cl_commit ` {e \<in> set (counted_lines xd no_cursor (log_lines log)). cl_author e = a}" .
qed

lemma scenario_C_counted:
  "counted_lines False no_cursor (log_lines scenario_C)
   = [\<lparr>cl_author = ''Alice'', cl_commit = Some ''a1'', cl_date = Some 739257,
        cl_ins = 5, cl_dels = 2, cl_path = ''src/app.ts''\<rparr>]"
  by code_simp

lemma binary_line_fields:
  "binary_line \<noteq> [] \<and> \<not> startswith binary_line ''COMMIT|''
   \<and> py_split (CHR 0x09) binary_line = [''-'', ''-'', ''assets/logo.bin'']"
  by code_simp

theorem skipped_line_changes_nothing_witness:
  "process_line False \<lparr>cur = alice_cursor, stats = Map.empty\<rparr> binary_line
     = \<lparr>cur = alice_cursor, stats = Map.empty\<rparr>
   \<and> dom (parse_git_log False scenario_C) = {''Alice''}
   \<and> (\<exists>s. parse_git_log False scenario_C ''Alice'' = Some s \<and> commits s = {Some ''a1''})"
proof -
  let ?st = "\<lparr>cur = alice_cursor, stats = Map.empty\<rparr>"
  note t = skipped_line_changes_nothing [of binary_line ?st False scenario_C]
  have p: "binary_line \<noteq> [] \<and> \<not> startswith binary_line ''COMMIT|''
      \<and> (length (py_split (CHR 0x09) binary_line) \<noteq> 3
          \<or> current_author (cur ?st) = None \<or> current_author (cur ?st) = Some []
          \<or> (\<exists>i d p. py_split (CHR 0x09) binary_line = [i, d, p]
                \<and> (i = ''-'' \<or> d = ''-'' \<or> should_exclude_file False p
                    \<or> py_int i = None \<or> py_int d = None)))"
    using binary_line_fields by simp
  from t p have a: "process_line False ?st binary_line = ?st" by blast
  from t have "dom (parse_git_log False scenario_C)
      = cl_author ` set (counted_lines False no_cursor (log_lines scenario_C))"
    by blast
  then have b: "dom (parse_git_log False scenario_C) = {''Alice''}"
    by (simp add: scenario_C_counted)
  from t have "\<forall>a s. parse_git_log False scenario_C a = Some s
         \<longrightarrow> commits s
             = cl_commit ` {e \<in> set (counted_lines False no_cursor (log_lines scenario_C)). cl_author e = a}"
    by blast
  then have u: "\<forall>s. parse_git_log False scenario_C ''Alice'' = Some s \<longrightarrow> commits s = {Some ''a1''}"
    by (auto simp: scenario_C_counted)
  from b have "''Alice'' \<in> dom (parse_git_log False scenario_C)" by simp
  then obtain s where s: "parse_git_log False scenario_C ''Alice'' = Some s" by auto
  with u have "commits s = {Some ''a1''}" by simp
  with s have c: "\<exists>s. parse_git_log False scenario_C ''Alice'' = Some s \<and> commits s = {Some ''a1''}"
    by blast
  from a b c show ?thesis by (intro conjI)
qed

section \<open>Weekly commit sets\<close>

text \<open>
  C10. In a parse result, the commit set of every weekly bucket of an author is contained
  in the author's commit set, which is finite, so a week never has more commits than the
  author has in all. When every counted line belongs to a commit with a date, the weekly
  commit sets of an author together make up the author's commit set.
\<close>

theorem weekly_commits_within_commits:
  "(\<forall>a s w b. parse_git_log xd log a = Some s \<and> weekly s w = Some b
       \<longrightarrow> wk_commits b \<subseteq> commits s \<and> finite (commits s)
           \<and> card (wk_commits b) \<le> card (commits s))
   \<and> ((\<forall>e\<in>set (counted_lines xd no_cursor (log_lines log)). cl_date e \<noteq> None)
       \<longrightarrow> (\<forall>a s. parse_git_log xd log a = Some s
              \<longrightarrow> (\<Union>b\<in>ran (weekly s). wk_commits b) = commits s))"
proof (rule conjI)
  let ?es = "counted_lines xd no_cursor (log_lines log)"
  show "\<forall>a s w b. parse_git_log xd log a = Some s \<and> weekly s w = Some b
       \<longrightarrow> wk_commits b \<subseteq> commits s \<and> finite (commits s)
           \<and> card (wk_commits b) \<le> card (commits s)"
  proof (intro allI impI)
  fix a s w b
  assume h: "parse_git_log xd log a = Some s \<and> weekly s w = Some b"
  then have s: "s = stat_of (foldl fold_into Map.empty ?es) a"
    by (simp add: parse_git_log_counted stat_of_Some)
  have "wk_commits (week_of s w)
      = cl_commit ` {e \<in> set ?es. cl_author e = a \<and> week_key e = Some w}"
    unfolding s by (simp add: wk_commits_foldl stat_of_empty wk_commits_new_author)
  with h have wb: "wk_commits b = cl_commit ` {e \<in> set ?es. cl_author e = a \<and> week_key e = Some w}"
    by (simp add: week_of_Some)
  have cs: "commits s = cl_commit ` {e \<in> set ?es. cl_author e = a}"
    unfolding s by (simp add: commits_foldl stat_of_empty new_author_def)
  from wb cs have sub: "wk_commits b \<subseteq> commits s" by auto
  from cs have fin: "finite (commits s)" by simp
  from sub fin show "wk_commits b \<subseteq> commits s \<and> finite (commits s)
           \<and> card (wk_commits b) \<le> card (commits s)"
    by (simp add: card_mono)
  qed
next
  let ?es = "counted_lines xd no_cursor (log_lines log)"
  show "(\<forall>e\<in>set ?es. cl_date e \<noteq> None)
       \<longrightarrow> (\<forall>a s. parse_git_log xd log a = Some s
              \<longrightarrow> (\<Union>b\<in>ran (weekly s). wk_commits b) = commits s)"
  proof (intro allI impI)
  fix a s
  assume dated: "\<forall>e\<in>set ?es. cl_date e \<noteq> None"
    and h: "parse_git_log xd log a = Some s"
  from h have s: "s = stat_of (foldl fold_into Map.empty ?es) a"
    by (simp add: parse_git_log_counted stat_of_Some)
  have cs: "commits s = cl_commit ` {e \<in> set ?es. cl_author e = a}"
    unfolding s by (simp add: commits_foldl stat_of_empty new_author_def)
  have dom: "dom (weekly s) = {w. \<exists>e\<in>set ?es. cl_author e = a \<and> week_key e = Some w}"
    unfolding s by (simp add: dom_weekly_foldl stat_of_empty new_author_def)
  have wk: "\<And>w. wk_commits (week_of s w)
      = cl_commit ` {e \<in> set ?es. cl_author e = a \<and> week_key e = Some w}"
    unfolding s by (simp add: wk_commits_foldl stat_of_empty wk_commits_new_author)
  show "(\<Union>b\<in>ran (weekly s). wk_commits b) = commits s"
  proof (intro set_eqI iffI)
    fix c
    assume "c \<in> (\<Union>b\<in>ran (weekly s). wk_commits b)"
    then obtain b w where "weekly s w = Some b" "c \<in> wk_commits b"
      by (auto simp: ran_def)
    then have "c \<in> wk_commits (week_of s w)" by (simp add: week_of_Some)
    then show "c \<in> commits s" unfolding wk cs by auto
  next
    fix c
    assume "c \<in> commits s"
    then obtain e where e: "e \<in> set ?es" "cl_author e = a" "cl_commit e = c"
      unfolding cs by auto
    with dated obtain d where "cl_date e = Some d" by auto
    then have k: "week_key e = Some (week_start d)" by (simp add: week_key_def)
    with e have "week_start d \<in> dom (weekly s)" unfolding dom by auto
    then obtain b where b: "weekly s (week_start d) = Some b" by auto
    then have bw: "b = week_of s (week_start d)" by (simp add: week_of_Some)
    from e k have "c \<in> cl_commit ` {e \<in> set ?es. cl_author e = a \<and> week_key e = Some (week_start d)}"
      by auto
    then have "c \<in> wk_commits b" unfolding bw wk .
    with b show "c \<in> (\<Union>b\<in>ran (weekly s). wk_commits b)" by (auto simp: ran_def)
  qed
  qed
qed


theorem weekly_commits_within_commits_witness:
  "\<exists>s b. parse_git_log False scenario_D ''Bob'' = Some s \<and> weekly s 739257 = Some b
      \<and> wk_commits b \<subseteq> commits s \<and> card (wk_commits b) \<le> card (commits s)
      \<and> (\<Union>b\<in>ran (weekly s). wk_commits b) = commits s"
proof -
  let ?es = "counted_lines False no_cursor (log_lines scenario_D)"
  have "''Bob'' \<in> dom (parse_git_log False scenario_D)"
    by (simp add: parse_git_log_counted dom_foldl_fold_into scenario_D_counted
                  scenario_D_counted_lines_def dom_fold_into)
  then obtain s where s: "parse_git_log False scenario_D ''Bob'' = Some s" by auto
  then have "s = stat_of (foldl fold_into Map.empty ?es) ''Bob''"
    by (simp add: parse_git_log_counted stat_of_Some)
  then have "dom (weekly s) = {w. \<exists>e\<in>set ?es. cl_author e = ''Bob'' \<and> week_key e = Some w}"
    by (simp add: dom_weekly_foldl stat_of_empty new_author_def)
  then have "739257 \<in> dom (weekly s)"
    by (simp add: scenario_D_counted scenario_D_counted_lines_def week_key_def week_start_sample)
  then obtain b where b: "weekly s 739257 = Some b" by auto
  have dated: "\<forall>e\<in>set ?es. cl_date e \<noteq> None"
    by (simp add: scenario_D_counted scenario_D_counted_lines_def)
  note t = weekly_commits_within_commits [of False scenario_D]
  from t s b have p1: "wk_commits b \<subseteq> commits s \<and> finite (commits s)
           \<and> card (wk_commits b) \<le> card (commits s)"
    by (elim conjE allE [of _ "''Bob''"] allE [of _ s] allE [of _ 739257] allE [of _ b]) simp
  from t dated have "\<forall>a s. parse_git_log False scenario_D a = Some s
              \<longrightarrow> (\<Union>b\<in>ran (weekly s). wk_commits b) = commits s"
    by (elim conjE) simp
  with s have p2: "(\<Union>b\<in>ran (weekly s). wk_commits b) = commits s" by simp
  from p1 p2 have "wk_commits b \<subseteq> commits s \<and> card (wk_commits b) \<le> card (commits s)
      \<and> (\<Union>b\<in>ran (weekly s). wk_commits b) = commits s"
    by simp
  with s b show ?thesis by blast
qed

end
